theory Spec2Isabelle
  imports Complex_Main "HOL-Library.Multiset" "HOL-Library.AList"
begin

section \<open>Shared runtime notions\<close>

text \<open>
  The source is TypeScript. A property read on \<open>undefined\<close> or \<open>null\<close> aborts the call
  with a \<open>TypeError\<close>; \<open>buildExecutionPlan\<close> throws its own \<open>Error\<close> carrying the id of
  the task at which a cycle was noticed. Both are values of the model: a function that
  can throw returns \<open>js_error + 'a\<close>.
\<close>

datatype js_error = TypeError | DependencyCycle string

text \<open>
  Strings are lists of 8-bit characters; the string operations below are the ASCII part
  of their JavaScript namesakes (\<open>toLowerCase\<close>, \<open>startsWith\<close>, \<open>includes\<close>).
\<close>

definition toLowerChar :: "char \<Rightarrow> char" where
  "toLowerChar c =
     (case map_of (zip ''ABCDEFGHIJKLMNOPQRSTUVWXYZ'' ''abcdefghijklmnopqrstuvwxyz'') c of
        None \<Rightarrow> c
      | Some l \<Rightarrow> l)"

definition toLowerCase :: "string \<Rightarrow> string" where
  "toLowerCase s = map toLowerChar s"

fun startsWith :: "string \<Rightarrow> string \<Rightarrow> bool" where
  "startsWith s [] = True"
| "startsWith [] (p # ps) = False"
| "startsWith (c # cs) (p # ps) = (c = p \<and> startsWith cs ps)"

fun str_includes :: "string \<Rightarrow> string \<Rightarrow> bool" where
  "str_includes [] needle = (needle = [])"
| "str_includes (c # cs) needle = (startsWith (c # cs) needle \<or> str_includes cs needle)"

text \<open>Decimal digits of a number, as a template literal prints an integer.\<close>

fun showNat :: "nat \<Rightarrow> string" where
  "showNat n =
     (if n < 10 then [''0123456789'' ! n]
      else showNat (n div 10) @ [''0123456789'' ! (n mod 10)])"

declare showNat.simps [simp del]

definition showInt :: "int \<Rightarrow> string" where
  "showInt i = (if i < 0 then ''-'' @ showNat (nat (- i)) else showNat (nat i))"

section \<open>Task decomposer (src/unnamed/part_001)\<close>

subsection \<open>Candidate tasks as JavaScript values\<close>

text \<open>
  \<open>validateAndEnrichTasks\<close> takes \<open>any[]\<close>: the array that \<open>JSON.parse\<close> returned, or the
  objects built by the text parser. A candidate is therefore a JSON value. Numbers are
  integers here (a JSON number with a fraction is outside the model). An object is the
  list of its own properties, each key once, as \<open>JSON.parse\<close> delivers it. \<open>undefined\<close>,
  which is no JSON value but the result of reading an absent property, is \<open>None\<close> of
  \<open>json option\<close>.
\<close>

datatype json =
    JNull
  | JBool bool
  | JNum int
  | JStr string
  | JArr "json list"
  | JObj "(string \<times> json) list"

text \<open>Truthiness, as \<open>||\<close> tests it.\<close>

definition truthy :: "json option \<Rightarrow> bool" where
  "truthy v =
     (case v of
        None \<Rightarrow> False
      | Some JNull \<Rightarrow> False
      | Some (JBool b) \<Rightarrow> b
      | Some (JNum n) \<Rightarrow> n \<noteq> 0
      | Some (JStr s) \<Rightarrow> s \<noteq> []
      | Some (JArr xs) \<Rightarrow> True
      | Some (JObj kvs) \<Rightarrow> True)"

text \<open>
  \<open>v.k\<close>: reading a property of \<open>null\<close> throws; an object yields its own property; a
  string, number, boolean or array yields \<open>undefined\<close> for the names the code reads
  (\<open>metadata\<close>, \<open>content\<close>), none of which is defined on a prototype.
\<close>

definition getProp :: "json \<Rightarrow> string \<Rightarrow> js_error + json option" where
  "getProp v k =
     (case v of
        JNull \<Rightarrow> Inl TypeError
      | JObj kvs \<Rightarrow> Inr (map_of kvs k)
      | _ \<Rightarrow> Inr None)"

text \<open>\<open>v?.k\<close>: \<open>undefined\<close> when \<open>v\<close> is \<open>undefined\<close> or \<open>null\<close>; never throws.\<close>

definition optGet :: "json option \<Rightarrow> string \<Rightarrow> json option" where
  "optGet v k =
     (case v of
        None \<Rightarrow> None
      | Some JNull \<Rightarrow> None
      | Some (JObj kvs) \<Rightarrow> map_of kvs k
      | Some _ \<Rightarrow> None)"

fun joinComma :: "string list \<Rightarrow> string" where
  "joinComma [] = []"
| "joinComma [s] = s"
| "joinComma (s # t # ss) = s @ '','' @ joinComma (t # ss)"

text \<open>
  The string a template literal makes of a value (\<open>ToString\<close>): an array joins its
  elements with commas, \<open>null\<close> elements printing as nothing; a plain object prints as
  \<open>[object Object]\<close>, unless an own property \<open>toString\<close> (which cannot be a function in
  JSON) shadows the inherited method, and then the conversion throws.
\<close>

fun toStr :: "json \<Rightarrow> js_error + string"
  and elementsToStr :: "json list \<Rightarrow> js_error + string list" where
  "toStr JNull = Inr ''null''"
| "toStr (JBool b) = Inr (if b then ''true'' else ''false'')"
| "toStr (JNum n) = Inr (showInt n)"
| "toStr (JStr s) = Inr s"
| "toStr (JArr xs) = (case elementsToStr xs of Inl e \<Rightarrow> Inl e | Inr ss \<Rightarrow> Inr (joinComma ss))"
| "toStr (JObj kvs) =
     (if map_of kvs ''toString'' \<noteq> None then Inl TypeError else Inr ''[object Object]'')"
| "elementsToStr [] = Inr []"
| "elementsToStr (x # xs) =
     (case (if x = JNull then Inr [] else toStr x) of
        Inl e \<Rightarrow> Inl e
      | Inr s \<Rightarrow> (case elementsToStr xs of Inl e \<Rightarrow> Inl e | Inr ss \<Rightarrow> Inr (s # ss)))"

definition templateStr :: "json option \<Rightarrow> js_error + string" where
  "templateStr v = (case v of None \<Rightarrow> Inr ''undefined'' | Some j \<Rightarrow> toStr j)"

text \<open>
  The own enumerable properties an object spread \<open>...v\<close> copies: those of an object;
  the indexed elements of an array or characters of a string; none for \<open>undefined\<close>,
  \<open>null\<close>, a number or a boolean.
\<close>

definition spreadEntries :: "json option \<Rightarrow> (string \<times> json) list" where
  "spreadEntries v =
     (case v of
        Some (JObj kvs) \<Rightarrow> kvs
      | Some (JArr xs) \<Rightarrow> zip (map showNat [0..<length xs]) xs
      | Some (JStr s) \<Rightarrow> zip (map showNat [0..<length s]) (map (\<lambda>c. JStr [c]) s)
      | _ \<Rightarrow> [])"

text \<open>\<open>a || b\<close>, with a second operand that is a value, and one that may throw.\<close>

definition orElse :: "json option \<Rightarrow> json \<Rightarrow> json" where
  "orElse v d = (case v of None \<Rightarrow> d | Some j \<Rightarrow> if truthy (Some j) then j else d)"

definition orElseE :: "json option \<Rightarrow> js_error + json \<Rightarrow> js_error + json" where
  "orElseE v d = (case v of None \<Rightarrow> d | Some j \<Rightarrow> if truthy (Some j) then Inr j else d)"

definition bindE :: "'e + 'a \<Rightarrow> ('a \<Rightarrow> 'e + 'b) \<Rightarrow> 'e + 'b" where
  "bindE r f = (case r of Inl e \<Rightarrow> Inl e | Inr v \<Rightarrow> f v)"

subsection \<open>inferWorkerType and validateAndEnrichTasks\<close>

definition inferWorkerType :: "string \<Rightarrow> string \<Rightarrow> string" where
  "inferWorkerType name description =
     (let normalizedText = toLowerCase (name @ '' '' @ description)
      in if str_includes normalizedText ''scan'' \<or> str_includes normalizedText ''project''
         then ''project-scan''
         else if str_includes normalizedText ''analyze'' \<or> str_includes normalizedText ''static''
         then ''static-analysis''
         else if str_includes normalizedText ''depend'' \<or> str_includes normalizedText ''package''
         then ''dependency-check''
         else if str_includes normalizedText ''innovat'' \<or> str_includes normalizedText ''suggest''
         then ''innovation-suggestion''
         else if str_includes normalizedText ''knowledge'' \<or> str_includes normalizedText ''graph''
         then ''knowledge''
         else ''local-data'')"

text \<open>
  The object one callback of \<open>tasks.map\<close> returns. Its \<open>metadata\<close> is an object literal
  that ends in a spread, so it can hold any key: it is a finite map from property names
  to values. In \<open>{a: x, ...m}\<close> a key of \<open>m\<close> overrides the same key written before the
  spread, which is \<open>++\<close> on maps.
\<close>

record enrichedTask =
  enrichedContent :: json
  enrichedMetadata :: "string \<rightharpoonup> json"

text \<open>
  The callback, for the element at \<open>index\<close>. The source's locals \<open>taskId\<close>, \<open>taskName\<close>,
  \<open>taskType\<close> carry a prime here. \<open>inferWorkerType\<close> receives \<open>taskName\<close> and
  \<open>task.content\<close> and puts both into a template literal.
\<close>

definition enrichTask :: "nat \<Rightarrow> json \<Rightarrow> js_error + enrichedTask" where
  "enrichTask index task =
     bindE (getProp task ''metadata'') (\<lambda>md.
     bindE (getProp task ''content'') (\<lambda>content'.
       let taskId' = orElse (optGet md ''taskId'') (JStr (''task-'' @ showNat (index + 1)));
           taskName' = orElse (optGet md ''taskName'') (JStr (''Task '' @ showNat (index + 1)))
       in
     bindE (orElseE (optGet md ''taskType'')
              (bindE (toStr taskName') (\<lambda>n.
               bindE (templateStr content') (\<lambda>d. Inr (JStr (inferWorkerType n d)))))) (\<lambda>taskType'.
     bindE (orElseE content'
              (bindE (toStr taskName') (\<lambda>n. Inr (JStr (''Execute task: '' @ n))))) (\<lambda>newContent.
       Inr \<lparr>enrichedContent = newContent,
            enrichedMetadata =
              map_of [(''taskId'', taskId'),
                      (''taskName'', taskName'),
                      (''taskType'', taskType'),
                      (''priority'', orElse (optGet md ''priority'') (JNum 1)),
                      (''dependencies'', orElse (optGet md ''dependencies'') (JArr [])),
                      (''status'', JStr ''pending''),
                      (''retries'', JNum 0)]
              ++ map_of (spreadEntries md)\<rparr>))))"

text \<open>\<open>tasks.map((task, index) => ...)\<close>: the first callback that throws ends the call.\<close>

fun enrichFrom :: "nat \<Rightarrow> json list \<Rightarrow> js_error + enrichedTask list" where
  "enrichFrom index [] = Inr []"
| "enrichFrom index (task # rest) =
     (case enrichTask index task of
        Inl e \<Rightarrow> Inl e
      | Inr t \<Rightarrow> (case enrichFrom (index + 1) rest of Inl e \<Rightarrow> Inl e | Inr ts \<Rightarrow> Inr (t # ts)))"

definition validateAndEnrichTasks :: "json list \<Rightarrow> js_error + enrichedTask list" where
  "validateAndEnrichTasks tasks = enrichFrom 0 tasks"

text \<open>
  For stating what becomes of \<open>status\<close> and \<open>retries\<close>: the candidate's own
  \<open>metadata\<close> value, the value of a field the caller's metadata carries (or a default
  when it carries none), and the reading of one field of a result.
\<close>

definition callerMetadata :: "json \<Rightarrow> json option" where
  "callerMetadata task = (case getProp task ''metadata'' of Inl e \<Rightarrow> None | Inr md \<Rightarrow> md)"

definition keptOrDefault :: "json \<Rightarrow> string \<Rightarrow> json \<Rightarrow> json" where
  "keptOrDefault task k d =
     (case map_of (spreadEntries (callerMetadata task)) k of None \<Rightarrow> d | Some v \<Rightarrow> v)"

definition metadataField :: "string \<Rightarrow> enrichedTask \<Rightarrow> json option" where
  "metadataField k t = enrichedMetadata t k"

definition exampleCandidate :: json where
  "exampleCandidate =
     JObj [(''content'', JStr ''Analyze the parser''),
           (''metadata'', JObj [(''status'', JStr ''completed''), (''retries'', JNum 3)])]"

subsection \<open>Task records and the execution plan\<close>

text \<open>
  \<open>buildExecutionPlan\<close> takes \<open>OrchestrationMessage[]\<close>: the fields are those
  \<open>validateAndEnrichTasks\<close> always sets. \<open>dependencies\<close> may be absent, which the code
  reads as the empty list (\<open>task.metadata.dependencies || []\<close>).
\<close>

record metadata =
  taskId :: string
  taskName :: string
  taskType :: string
  priority :: int
  dependencies :: "string list option"
  status :: string
  retries :: int

record OrchestrationMessage =
  message_content :: string
  metadata :: metadata

text \<open>
  A JavaScript \<open>Map\<close> iterates in insertion order, and \<open>set\<close> on a key already present
  replaces the value where it stands: an association list with \<open>AList.update\<close>. A \<open>Set\<close>
  of strings is a list without repetition, \<open>add\<close> appending a new element.
\<close>

type_synonym taskMap = "(string \<times> OrchestrationMessage) list"
type_synonym dependencyGraph = "(string \<times> string list) list"

definition map_has :: "('k \<times> 'v) list \<Rightarrow> 'k \<Rightarrow> bool" where
  "map_has m k = (map_of m k \<noteq> None)"

definition set_add :: "'a \<Rightarrow> 'a list \<Rightarrow> 'a list" where
  "set_add x xs = (if x \<in> set xs then xs else xs @ [x])"

definition dependenciesOf :: "OrchestrationMessage \<Rightarrow> string list" where
  "dependenciesOf task = (case dependencies (metadata task) of None \<Rightarrow> [] | Some ds \<Rightarrow> ds)"

text \<open>The first \<open>forEach\<close>: \<open>taskMap.set(task.metadata.taskId, task)\<close>.\<close>

definition buildTaskMap :: "OrchestrationMessage list \<Rightarrow> taskMap" where
  "buildTaskMap tasks = fold (\<lambda>task m. AList.update (taskId (metadata task)) task m) tasks []"

text \<open>
  The second \<open>forEach\<close>: an empty set for every task id. (\<open>dependentsGraph\<close> is filled
  alongside and never read; it is left out.)
\<close>

definition initGraph :: "OrchestrationMessage list \<Rightarrow> dependencyGraph" where
  "initGraph tasks = fold (\<lambda>task g. AList.update (taskId (metadata task)) [] g) tasks []"

text \<open>
  The third \<open>forEach\<close>: a dependency is recorded only if \<open>taskMap.has(depId)\<close>;
  \<open>dependencyGraph.get(taskId)?.add(depId)\<close> does nothing when the key is missing.
\<close>

definition addDependency ::
  "taskMap \<Rightarrow> string \<Rightarrow> string \<Rightarrow> dependencyGraph \<Rightarrow> dependencyGraph" where
  "addDependency tm tid depId g =
     (if map_has tm depId
      then (case map_of g tid of
              None \<Rightarrow> g
            | Some ds \<Rightarrow> AList.update tid (set_add depId ds) g)
      else g)"

definition populateGraph ::
  "taskMap \<Rightarrow> OrchestrationMessage list \<Rightarrow> dependencyGraph \<Rightarrow> dependencyGraph" where
  "populateGraph tm tasks g =
     fold (\<lambda>task g. fold (addDependency tm (taskId (metadata task))) (dependenciesOf task) g)
       tasks g"

text \<open>The three variables the closure \<open>visit\<close> writes.\<close>

record sortState =
  executionOrder :: "OrchestrationMessage list"
  visited :: "string set"
  temp :: "string set"

text \<open>\<open>dependencyGraph.get(taskId) || new Set<string>()\<close>\<close>

definition graphGet :: "dependencyGraph \<Rightarrow> string \<Rightarrow> string list" where
  "graphGet g k = (case map_of g k of None \<Rightarrow> [] | Some ds \<Rightarrow> ds)"

text \<open>
  The end of \<open>visit\<close>: \<open>temp.delete\<close>, \<open>visited.add\<close>, and the push if
  \<open>taskMap.has(taskId)\<close>.
\<close>

definition finishVisit :: "taskMap \<Rightarrow> string \<Rightarrow> sortState \<Rightarrow> sortState" where
  "finishVisit tm tid st =
     (let st1 = st\<lparr>temp := temp st - {tid}\<rparr>;
          st2 = st1\<lparr>visited := insert tid (visited st1)\<rparr>
      in case map_of tm tid of
           None \<Rightarrow> st2
         | Some task \<Rightarrow> st2\<lparr>executionOrder := executionOrder st2 @ [task]\<rparr>)"

text \<open>
  \<open>visit\<close> calls itself through the \<open>for\<close> loop over the dependencies (\<open>visitEach\<close>).
  Its recursion is not structural, so it carries fuel: the number of nested calls still
  allowed. \<open>None\<close> means the fuel ran out; \<open>Some (Inl e)\<close> is the thrown error, which
  leaves every loop at once; \<open>Some (Inr st)\<close> is a normal return with the new state.
  That \<open>length tasks + 1\<close> nested calls always suffice, and that more fuel never changes
  an answer, is proved below (\<open>plan_total\<close>, \<open>plan_fuel_mono\<close>). The model has no
  limit on the depth of the call stack.
\<close>

fun visit ::
  "nat \<Rightarrow> taskMap \<Rightarrow> dependencyGraph \<Rightarrow> string \<Rightarrow> sortState \<Rightarrow> (js_error + sortState) option"
  and visitEach ::
  "nat \<Rightarrow> taskMap \<Rightarrow> dependencyGraph \<Rightarrow> string list \<Rightarrow> sortState
     \<Rightarrow> (js_error + sortState) option"
  where
  "visit 0 tm g tid st = None"
| "visit (Suc n) tm g tid st =
     (if tid \<in> temp st then Some (Inl (DependencyCycle tid))
      else if tid \<in> visited st then Some (Inr st)
      else (case visitEach n tm g (graphGet g tid) (st\<lparr>temp := insert tid (temp st)\<rparr>) of
              None \<Rightarrow> None
            | Some (Inl e) \<Rightarrow> Some (Inl e)
            | Some (Inr st') \<Rightarrow> Some (Inr (finishVisit tm tid st'))))"
| "visitEach n tm g [] st = Some (Inr st)"
| "visitEach n tm g (depId # rest) st =
     (case visit n tm g depId st of
        None \<Rightarrow> None
      | Some (Inl e) \<Rightarrow> Some (Inl e)
      | Some (Inr st') \<Rightarrow> visitEach n tm g rest st')"

text \<open>\<open>for (const taskId of taskMap.keys()) if (!visited.has(taskId)) visit(taskId)\<close>\<close>

fun visitAll ::
  "nat \<Rightarrow> taskMap \<Rightarrow> dependencyGraph \<Rightarrow> string list \<Rightarrow> sortState
     \<Rightarrow> (js_error + sortState) option" where
  "visitAll n tm g [] st = Some (Inr st)"
| "visitAll n tm g (tid # rest) st =
     (if tid \<notin> visited st
      then (case visit n tm g tid st of
              None \<Rightarrow> None
            | Some (Inl e) \<Rightarrow> Some (Inl e)
            | Some (Inr st') \<Rightarrow> visitAll n tm g rest st')
      else visitAll n tm g rest st)"

definition buildExecutionPlan ::
  "nat \<Rightarrow> OrchestrationMessage list \<Rightarrow> (js_error + OrchestrationMessage list) option" where
  "buildExecutionPlan fuel tasks =
     (let tm = buildTaskMap tasks;
          g = populateGraph tm tasks (initGraph tasks)
      in case visitAll fuel tm g (map fst tm) \<lparr>executionOrder = [], visited = {}, temp = {}\<rparr> of
           None \<Rightarrow> None
         | Some (Inl e) \<Rightarrow> Some (Inl e)
         | Some (Inr st) \<Rightarrow> Some (Inr (rev (executionOrder st))))"

subsection \<open>Notions for stating the plan's properties\<close>

abbreviation idOf :: "OrchestrationMessage \<Rightarrow> string" where
  "idOf t \<equiv> taskId (metadata t)"

text \<open>
  The in-plan dependency relation of a task list: \<open>(a, b)\<close> when a task with id \<open>a\<close>
  names \<open>b\<close> among its dependencies and \<open>b\<close> is the id of a task of the list.
\<close>

definition inPlanDependencies :: "OrchestrationMessage list \<Rightarrow> (string \<times> string) set" where
  "inPlanDependencies tasks =
     {(a, b). \<exists>t \<in> set tasks. taskId (metadata t) = a \<and> b \<in> set (dependenciesOf t) \<and>
                b \<in> (taskId \<circ> metadata) ` set tasks}"

text \<open>A task with its dangling references (to ids outside \<open>tasks\<close>) removed.\<close>

definition withoutDangling ::
  "OrchestrationMessage list \<Rightarrow> OrchestrationMessage \<Rightarrow> OrchestrationMessage" where
  "withoutDangling tasks t =
     t\<lparr>metadata := (metadata t)\<lparr>dependencies :=
          map_option (filter (\<lambda>d. d \<in> (taskId \<circ> metadata) ` set tasks))
            (dependencies (metadata t))\<rparr>\<rparr>"

text \<open>The edges of the dependency graph the code builds.\<close>

definition graphRel :: "dependencyGraph \<Rightarrow> (string \<times> string) set" where
  "graphRel g = {(a, b). b \<in> set (graphGet g a)}"

text \<open>
  A list of ids in which every id stands before all the ids it depends on: the shape of
  the list \<open>buildExecutionPlan\<close> returns, which is \<open>executionOrder\<close> reversed.
\<close>

fun dependentsFirst :: "dependencyGraph \<Rightarrow> string list \<Rightarrow> bool" where
  "dependentsFirst g [] = True"
| "dependentsFirst g (x # xs) = (set (graphGet g x) \<subseteq> set xs \<and> dependentsFirst g xs)"

definition orderIds :: "sortState \<Rightarrow> string list" where
  "orderIds st = map (taskId \<circ> metadata) (executionOrder st)"

text \<open>
  The invariant of the traversal: the tasks pushed so far are exactly the visited ones,
  each once, every one pushed after its dependencies, and every one the entry of the
  task map under its id.
\<close>

definition stateInv :: "taskMap \<Rightarrow> dependencyGraph \<Rightarrow> sortState \<Rightarrow> bool" where
  "stateInv tm g st \<longleftrightarrow>
     set (orderIds st) = visited st \<and> distinct (orderIds st) \<and>
     dependentsFirst g (rev (orderIds st)) \<and>
     (\<forall>e \<in> set (executionOrder st). map_of tm (taskId (metadata e)) = Some e)"

text \<open>
  What the construction guarantees of the map and the graph: a task is stored under its
  own id, and every edge leads to a key of the map.
\<close>

definition planWf :: "taskMap \<Rightarrow> dependencyGraph \<Rightarrow> bool" where
  "planWf tm g \<longleftrightarrow>
     (\<forall>k v. map_of tm k = Some v \<longrightarrow> taskId (metadata v) = k) \<and>
     (\<forall>a b. b \<in> set (graphGet g a) \<longrightarrow> map_of tm b \<noteq> None)"

definition initialState :: sortState where
  "initialState = \<lparr>executionOrder = [], visited = {}, temp = {}\<rparr>"

definition mapOrder ::
  "(OrchestrationMessage \<Rightarrow> OrchestrationMessage) \<Rightarrow> sortState \<Rightarrow> sortState" where
  "mapOrder f st = st\<lparr>executionOrder := map f (executionOrder st)\<rparr>"

subsection \<open>Example plans\<close>

definition mkTask :: "string \<Rightarrow> string list \<Rightarrow> OrchestrationMessage" where
  "mkTask i ds =
     \<lparr>message_content = ''Execute task: '' @ i,
      metadata = \<lparr>taskId = i, taskName = i, taskType = ''local-data'', priority = 1,
                  dependencies = Some ds, status = ''pending'', retries = 0\<rparr>\<rparr>"

definition exampleChain :: "OrchestrationMessage list" where
  "exampleChain = [mkTask ''task-1'' [], mkTask ''task-2'' [''task-1'']]"

definition exampleCycle :: "OrchestrationMessage list" where
  "exampleCycle = [mkTask ''task-1'' [''task-2''], mkTask ''task-2'' [''task-1'']]"

definition exampleDangling :: "OrchestrationMessage list" where
  "exampleDangling = [mkTask ''task-1'' [''task-9''], mkTask ''task-2'' [''task-1'', ''zz'']]"

section \<open>Knowledge graph service (src/knowledge-graph.ts)\<close>

subsection \<open>The graph store\<close>

text \<open>
  Nodes and edges as \<open>addNode\<close> and \<open>addEdge\<close> receive them. The field names \<open>id\<close>,
  \<open>type\<close>, \<open>data\<close>, \<open>from\<close> and \<open>to\<close> carry a prefix here. The attribute bag \<open>data\<close> is
  opaque (a type parameter); the code only serialises it.
\<close>

record 'd GraphNode =
  nodeId :: string
  nodeType :: string
  nodeData :: 'd

record 'e GraphEdge =
  edgeFrom :: string
  edgeTo :: string
  edgeType :: string
  edgeData :: "'e option"

record ('d, 'e) Graph =
  nodes :: "'d GraphNode list"
  edges :: "'e GraphEdge list"

text \<open>
  Modelled from the spec: the class \<open>Graph\<close> of \<open>../utils/graph\<close> is not among the
  sources. The specification describes a generic directed, labelled multigraph over
  node and edge records; \<open>getAllNodes\<close> returns its nodes.
\<close>

definition getAllNodes :: "('d, 'e) Graph \<Rightarrow> 'd GraphNode list" where
  "getAllNodes g = nodes g"

text \<open>
  Modelled from the spec: \<open>getEdgesFrom\<close> of the absent class \<open>Graph\<close>, taken as the
  edges of the multigraph whose \<open>from\<close> is the given node id, in insertion order.
\<close>

definition getEdgesFrom :: "('d, 'e) Graph \<Rightarrow> string \<Rightarrow> 'e GraphEdge list" where
  "getEdgesFrom g i = filter (\<lambda>e. edgeFrom e = i) (edges g)"

subsection \<open>The relevance query\<close>

text \<open>
  What \<open>getRelevantContext\<close> reads of its \<open>taskMessage\<close>: \<open>content\<close>, and \<open>taskType\<close>
  of \<open>taskMessage.metadata || {}\<close>. \<open>msgTaskType\<close> is \<open>None\<close> both when there is no
  metadata and when the metadata has no task type. \<open>msgContent\<close> is \<open>None\<close> when the
  message has no \<open>content\<close> (also when the message is a bare string, as the
  orchestrator passes it).
\<close>

record taskMessage =
  msgContent :: "string option"
  msgTaskType :: "string option"

text \<open>The word characters and the whitespace of the regular expressions, on ASCII.\<close>

definition isWordChar :: "char \<Rightarrow> bool" where
  "isWordChar c =
     (c \<in> set ''abcdefghijklmnopqrstuvwxyzABCDEFGHIJKLMNOPQRSTUVWXYZ0123456789_'')"

definition isSpaceChar :: "char \<Rightarrow> bool" where
  "isSpaceChar c = (c \<in> {CHR '' '', CHR 0x09, CHR 0x0A, CHR 0x0B, CHR 0x0C, CHR 0x0D})"

text \<open>
  \<open>split\<close> on runs of whitespace: the pieces between maximal runs, an empty piece before
  a leading run and after a trailing one.
\<close>

fun splitLoop :: "bool \<Rightarrow> string \<Rightarrow> string \<Rightarrow> string list" where
  "splitLoop inSpace cur [] = [rev cur]"
| "splitLoop inSpace cur (c # cs) =
     (if isSpaceChar c
      then (if inSpace then splitLoop True cur cs else rev cur # splitLoop True [] cs)
      else splitLoop False (c # cur) cs)"

definition splitWhitespace :: "string \<Rightarrow> string list" where
  "splitWhitespace s = splitLoop False [] s"

definition extractKeywords :: "string \<Rightarrow> string list" where
  "extractKeywords query =
     filter (\<lambda>word. word \<notin> set [''the'', ''and'', ''that'', ''have'', ''for'', ''with''])
       (filter (\<lambda>word. length word > 3)
          (splitWhitespace
             (filter (\<lambda>c. isWordChar c \<or> isSpaceChar c) (toLowerCase query))))"

text \<open>
  An element of \<open>relevantNodes\<close>. A relevance is a quotient of two counts plus a bonus:
  a rational number here, where the code computes in floating point. \<open>None\<close> is \<open>NaN\<close>,
  the value of \<open>0 / 0\<close> when the query has no keyword.
\<close>

record 'd scoredNode =
  node :: "'d GraphNode"
  relevance :: "rat option"

definition jsDivide :: "nat \<Rightarrow> nat \<Rightarrow> rat option" where
  "jsDivide a b = (if b = 0 then None else Some (of_nat a / of_nat b))"

text \<open>\<open>if (taskType) ...\<close>: an absent or empty task type earns nothing.\<close>

definition taskTypeBonus :: "string option \<Rightarrow> 'd GraphNode \<Rightarrow> rat" where
  "taskTypeBonus taskType' n =
     (case taskType' of
        None \<Rightarrow> 0
      | Some t \<Rightarrow>
          if t = [] then 0
          else if t = ''dependency-check'' \<and> nodeType n = ''dependency'' then 1 / 2
          else if t = ''static-analysis'' \<and> nodeType n = ''codeEntity'' then 1 / 2
          else 0)"

text \<open>
  One round of the \<open>forEach\<close> of \<open>findRelevantNodes\<close>: the element pushed for a node, if
  any. \<open>stringify\<close> stands for \<open>JSON.stringify\<close> on the opaque \<open>node.data\<close>. A comparison
  with \<open>NaN\<close> is false, and \<open>NaN\<close> plus a number is \<open>NaN\<close>.
\<close>

definition scoreNode ::
  "('d \<Rightarrow> string) \<Rightarrow> string list \<Rightarrow> string option \<Rightarrow> 'd GraphNode \<Rightarrow> 'd scoredNode list" where
  "scoreNode stringify keywords taskType' n =
     (let nodeText = toLowerCase (stringify (nodeData n));
          keywordMatches = length (filter (\<lambda>keyword. str_includes nodeText keyword) keywords);
          relevance' = jsDivide keywordMatches (length keywords);
          taskTypeRelevance = taskTypeBonus taskType' n
      in if (case relevance' of None \<Rightarrow> False | Some r \<Rightarrow> r > 0) \<or> taskTypeRelevance > 0
         then [\<lparr>node = n, relevance = map_option (\<lambda>r. r + taskTypeRelevance) relevance'\<rparr>]
         else [])"

definition findRelevantNodes ::
  "('d \<Rightarrow> string) \<Rightarrow> ('d, 'e) Graph \<Rightarrow> string list \<Rightarrow> string option \<Rightarrow> 'd scoredNode list" where
  "findRelevantNodes stringify g keywords taskType' =
     concat (map (scoreNode stringify keywords taskType') (getAllNodes g))"

text \<open>
  \<open>relevantNodes.sort((a, b) => b.relevance - a.relevance)\<close>: a stable sort by descending
  relevance. When the relevances are \<open>NaN\<close> (all of them are, or none is) the comparator
  returns \<open>NaN\<close>, which \<open>sort\<close> reads as equal, and the order stays as it was.
\<close>

definition sortByRelevance :: "'d scoredNode list \<Rightarrow> 'd scoredNode list" where
  "sortByRelevance xs = sort_key (\<lambda>x. case relevance x of None \<Rightarrow> 0 | Some r \<Rightarrow> - r) xs"

text \<open>
  \<open>xs.slice(0, e)\<close> for an integer \<open>e\<close>: a negative end counts from the end of the array.
\<close>

definition slice0 :: "'a list \<Rightarrow> int \<Rightarrow> 'a list" where
  "slice0 xs e =
     (let len = int (length xs);
          final = (if e < 0 then max (len + e) 0 else min e len)
      in take (nat final) xs)"

record summary =
  entityCount :: nat
  relationshipCount :: nat
  entityTypes :: "(string \<times> nat) list"
  relationshipTypes :: "(string \<times> nat) list"

record ('d, 'e) contextBundle =
  entities :: "'d GraphNode list"
  relationships :: "'e GraphEdge list"
  summary :: summary

text \<open>\<open>counts[type] = (counts[type] || 0) + 1\<close>, for type tags that name no inherited property.\<close>

definition countByType :: "string list \<Rightarrow> (string \<times> nat) list" where
  "countByType types =
     fold (\<lambda>t counts. AList.update t ((case map_of counts t of None \<Rightarrow> 0 | Some c \<Rightarrow> c) + 1) counts)
       types []"

text \<open>
  The state of the \<open>forEach\<close> of \<open>buildContextFromNodes\<close>, and one round of it: the
  node's id joins \<open>includedNodeIds\<close>, the node is pushed, and of the edges leaving the
  node those are pushed whose target is in \<open>includedNodeIds\<close> at that moment.
\<close>

record ('d, 'e) buildState =
  includedNodeIds :: "string set"
  bsEntities :: "'d GraphNode list"
  bsRelationships :: "'e GraphEdge list"

definition addNodeToContext ::
  "('d, 'e) Graph \<Rightarrow> 'd scoredNode \<Rightarrow> ('d, 'e) buildState \<Rightarrow> ('d, 'e) buildState" where
  "addNodeToContext g sn st =
     (let n = node sn;
          included = insert (nodeId n) (includedNodeIds st)
      in \<lparr>includedNodeIds = included,
          bsEntities = bsEntities st @ [n],
          bsRelationships = bsRelationships st @
             filter (\<lambda>edge. edgeTo edge \<in> included) (getEdgesFrom g (nodeId n))\<rparr>)"

definition buildContextFromNodes ::
  "('d, 'e) Graph \<Rightarrow> 'd scoredNode list \<Rightarrow> ('d, 'e) contextBundle" where
  "buildContextFromNodes g relevantNodes =
     (let st = fold (addNodeToContext g) relevantNodes
                 \<lparr>includedNodeIds = {}, bsEntities = [], bsRelationships = []\<rparr>
      in \<lparr>entities = bsEntities st,
          relationships = bsRelationships st,
          summary = \<lparr>entityCount = length (bsEntities st),
                     relationshipCount = length (bsRelationships st),
                     entityTypes = countByType (map nodeType (bsEntities st)),
                     relationshipTypes = countByType (map edgeType (bsRelationships st))\<rparr>\<rparr>)"

text \<open>
  \<open>taskMessage.content.toLowerCase()\<close> throws when there is no content. \<open>maxNodes\<close> is
  an integer.
\<close>

definition getRelevantContext ::
  "('d \<Rightarrow> string) \<Rightarrow> ('d, 'e) Graph \<Rightarrow> taskMessage \<Rightarrow> int
     \<Rightarrow> js_error + ('d, 'e) contextBundle" where
  "getRelevantContext stringify g taskMessage maxNodes =
     (case msgContent taskMessage of
        None \<Rightarrow> Inl TypeError
      | Some c \<Rightarrow>
          let query = toLowerCase c;
              keywords = extractKeywords query;
              relevantNodes = findRelevantNodes stringify g keywords (msgTaskType taskMessage);
              sorted = sortByRelevance relevantNodes;
              topNodes = slice0 sorted maxNodes
          in Inr (buildContextFromNodes g topNodes))"

subsection \<open>Notions for stating the query's properties, and an example\<close>

definition entityIds :: "('d, 'e) contextBundle \<Rightarrow> string list" where
  "entityIds ctx = map nodeId (entities ctx)"

text \<open>
  The invariant of the loop of \<open>buildContextFromNodes\<close>: the included ids are those of
  the entities pushed, and both ends of every relationship pushed are among them.
\<close>

definition buildInv :: "('d, 'e) buildState \<Rightarrow> bool" where
  "buildInv st \<longleftrightarrow>
     includedNodeIds st = nodeId ` set (bsEntities st) \<and>
     (\<forall>r \<in> set (bsRelationships st).
        edgeFrom r \<in> includedNodeIds st \<and> edgeTo r \<in> includedNodeIds st)"

text \<open>
  Three files, each described by a text; two of them import each other. The node data
  are already texts, so \<open>stringify\<close> is the identity in the examples.
\<close>

definition exampleGraph :: "(string, unit) Graph" where
  "exampleGraph =
     \<lparr>nodes = [\<lparr>nodeId = ''file:a.ts'', nodeType = ''file'',
                 nodeData = ''{path:a.ts,role:parser module}''\<rparr>,
               \<lparr>nodeId = ''file:b.ts'', nodeType = ''file'',
                 nodeData = ''{path:b.ts,role:parser module}''\<rparr>,
               \<lparr>nodeId = ''file:c.ts'', nodeType = ''file'',
                 nodeData = ''{path:c.ts,role:lexer module}''\<rparr>],
      edges = [\<lparr>edgeFrom = ''file:a.ts'', edgeTo = ''file:b.ts'', edgeType = ''imports'',
                 edgeData = None\<rparr>,
               \<lparr>edgeFrom = ''file:b.ts'', edgeTo = ''file:a.ts'', edgeType = ''imports'',
                 edgeData = None\<rparr>]\<rparr>"

definition exampleQuery :: taskMessage where
  "exampleQuery = \<lparr>msgContent = Some ''Refactor the Parser module'', msgTaskType = None\<rparr>"

section \<open>Context compression (src/context-compression.ts)\<close>

subsection \<open>Data\<close>

text \<open>
  An entry of a \<open>dependencies\<close> array. Only \<open>importanceScore\<close> is read by the code; it is
  an integer here (the comparator \<open>b.importanceScore - a.importanceScore\<close> is then a
  consistent order).
\<close>

record dependency =
  depName :: string
  importanceScore :: int

text \<open>
  Arrays of dependencies are mutable and shared by reference: \<open>Array.prototype.sort\<close>
  sorts the receiver in place. They live in a store, and a component holds the address
  of its array. Every other field is never written by the code and is a plain value.
  An absent field (\<open>undefined\<close>) is \<open>None\<close>. The source's \<open>type\<close> is \<open>ctype\<close>, and
  \<open>dependencies_ref\<close> is the address of the array that the source's \<open>dependencies\<close>
  refers to.
\<close>

type_synonym addr = nat
type_synonym store = "addr \<Rightarrow> dependency list"

record component =
  ctype :: string
  path :: "string option"
  content :: "string option"
  dependencies_ref :: "addr option"

text \<open>
  What \<open>fitComponentsInBudget\<close> pushes on its result: the component object itself, or
  one of the two object literals built by the compression strategies
  (\<open>{type, path, summarizedContent, isCompressed: true}\<close> and
  \<open>{type: 'dependencies', dependencies, totalCount, isCompressed: true}\<close>, the latter
  holding the fresh array made by \<open>slice\<close>).
\<close>

datatype packed =
    Verbatim component
  | Summarized string "string option" string
  | TopDependencies "dependency list" nat

record essentialMetadata =
  userId :: "string option"
  projectType :: "string option"
  requestType :: "string option"
  timestamp :: "string option"

record compressedContext = essentialMetadata +
  components :: "packed list"

text \<open>
  The context handed to \<open>compress\<close>: the four fields that \<open>extractEssentialMetadata\<close>
  reads, and everything else (\<open>body\<close>), which only the prioritizer looks at.
\<close>

record 'b inputContext =
  ctx_userId :: "string option"
  ctx_projectType :: "string option"
  ctx_requestType :: "string option"
  ctx_timestamp :: "string option"
  body :: 'b

text \<open>
  The collaborators imported from \<open>../utils\<close> are not part of the sources at hand; they
  are parameters of the model. \<open>tokenCounter_count\<close> is the token estimate of a text (a
  count, hence a natural number; it is also applied to \<open>component.content\<close>, which may be
  absent). \<open>JSON_stringify\<close> and \<open>JSON_stringify_metadata\<close> stand for \<open>JSON.stringify\<close> on a
  component (whose text depends on the array it points to) and on the metadata object.
\<close>

record 'b collaborators =
  tokenCounter_count :: "string option \<Rightarrow> nat"
  JSON_stringify :: "store \<Rightarrow> component \<Rightarrow> string"
  JSON_stringify_metadata :: "essentialMetadata \<Rightarrow> string"
  prioritizer_prioritize :: "'b inputContext \<Rightarrow> component list"
  summarizer_summarize :: "string option \<Rightarrow> int \<Rightarrow> string"

subsection \<open>Operations\<close>

definition extractEssentialMetadata :: "'b inputContext \<Rightarrow> essentialMetadata" where
  "extractEssentialMetadata c =
     \<lparr>userId = ctx_userId c, projectType = ctx_projectType c,
      requestType = ctx_requestType c, timestamp = ctx_timestamp c\<rparr>"

definition compressCodeComponent ::
  "'b collaborators \<Rightarrow> component \<Rightarrow> int \<Rightarrow> packed option" where
  "compressCodeComponent E c budget =
     (if int (tokenCounter_count E (content c)) > budget
      then Some (Summarized ''code'' (path c) (summarizer_summarize E (content c) budget))
      else None)"

text \<open>
  \<open>sort\<close> with the comparator \<open>b.importanceScore - a.importanceScore\<close>: a stable sort by
  descending score. \<open>sort_key\<close> is a stable insertion sort by ascending key.
\<close>

definition sortByImportance :: "dependency list \<Rightarrow> dependency list" where
  "sortByImportance ds = sort_key (\<lambda>d. - importanceScore d) ds"

text \<open>
  Returns the object built (or \<open>None\<close> for \<open>null\<close>) and the store after the call.
  \<open>component.dependencies.length\<close> on a component without that field throws.
  \<open>Math.floor(budget / 50)\<close> is \<open>div\<close> on integers, which rounds down.
\<close>

definition compressDependenciesComponent ::
  "store \<Rightarrow> component \<Rightarrow> int \<Rightarrow> js_error + (packed option \<times> store)" where
  "compressDependenciesComponent s c budget =
     (case dependencies_ref c of
        None \<Rightarrow> Inl TypeError
      | Some a \<Rightarrow>
          if length (s a) > 0 then
            let sorted = sortByImportance (s a);
                importantDeps = take (nat (max 1 (budget div 50))) sorted
            in Inr (Some (TopDependencies importantDeps (length sorted)), s(a := sorted))
          else Inr (None, s))"

text \<open>\<open>component.content && ...\<close>: an absent or empty text is falsy.\<close>

definition compressDocumentationComponent ::
  "'b collaborators \<Rightarrow> component \<Rightarrow> int \<Rightarrow> packed option" where
  "compressDocumentationComponent E c budget =
     (if content c \<noteq> None \<and> content c \<noteq> Some [] \<and>
         int (tokenCounter_count E (content c)) > budget
      then Some (Summarized ''documentation'' (path c)
                   (summarizer_summarize E (content c) budget))
      else None)"

definition compressComponent ::
  "'b collaborators \<Rightarrow> store \<Rightarrow> component \<Rightarrow> int \<Rightarrow> js_error + (packed option \<times> store)" where
  "compressComponent E s c budget =
     (if ctype c = ''code'' then Inr (compressCodeComponent E c budget, s)
      else if ctype c = ''dependencies'' then compressDependenciesComponent s c budget
      else if ctype c = ''documentation'' then
        Inr (compressDocumentationComponent E c budget, s)
      else Inr (None, s))"

text \<open>
  The \<open>for\<close> loop of \<open>fitComponentsInBudget\<close>, with its two local variables \<open>result\<close> and
  \<open>usedTokens\<close> and the store as the loop state; \<open>break\<close> returns at once.
\<close>

fun fitLoop ::
  "'b collaborators \<Rightarrow> int \<Rightarrow> component list \<Rightarrow> packed list \<Rightarrow> int \<Rightarrow> store
     \<Rightarrow> js_error + (packed list \<times> store)" where
  "fitLoop E budget [] result usedTokens s = Inr (result, s)"
| "fitLoop E budget (c # cs) result usedTokens s =
     (let componentJson = JSON_stringify E s c;
          componentTokens = int (tokenCounter_count E (Some componentJson))
      in if usedTokens + componentTokens \<le> budget
         then fitLoop E budget cs (result @ [Verbatim c]) (usedTokens + componentTokens) s
         else (case compressComponent E s c (budget - usedTokens) of
                 Inl e \<Rightarrow> Inl e
               | Inr (Some compressedComponent, s') \<Rightarrow> Inr (result @ [compressedComponent], s')
               | Inr (None, s') \<Rightarrow> fitLoop E budget cs result usedTokens s'))"

definition fitComponentsInBudget ::
  "'b collaborators \<Rightarrow> store \<Rightarrow> component list \<Rightarrow> int \<Rightarrow> js_error + (packed list \<times> store)" where
  "fitComponentsInBudget E s cs budget = fitLoop E budget cs [] 0 s"

definition compress ::
  "'b collaborators \<Rightarrow> store \<Rightarrow> 'b inputContext \<Rightarrow> int \<Rightarrow> js_error + (compressedContext \<times> store)" where
  "compress E s ctx maxTokens =
     (let essential = extractEssentialMetadata ctx;
          essentialTokens = int (tokenCounter_count E (Some (JSON_stringify_metadata E essential)));
          remainingTokens = maxTokens - essentialTokens;
          prioritizedComponents = prioritizer_prioritize E ctx
      in case fitComponentsInBudget E s prioritizedComponents remainingTokens of
           Inl e \<Rightarrow> Inl e
         | Inr (cs, s') \<Rightarrow> Inr (essentialMetadata.extend essential
                                  (compressedContext.fields cs), s'))"


subsection \<open>The packing policy as the specification words it\<close>

text \<open>
  The estimated cost of one component, as the loop computes it, and of a run of
  components.
\<close>

definition componentTokens :: "'b collaborators \<Rightarrow> store \<Rightarrow> component \<Rightarrow> int" where
  "componentTokens E s c = int (tokenCounter_count E (Some (JSON_stringify E s c)))"

definition packedCost :: "'b collaborators \<Rightarrow> store \<Rightarrow> component list \<Rightarrow> int" where
  "packedCost E s cs = sum_list (map (componentTokens E s) cs)"

text \<open>
  The specification's greedy packing, written from its sentences and not from the loop:
  it tracks the unused budget. A component that fits the unused budget is included
  verbatim and its cost deducted; otherwise compression is attempted with the exact
  unused budget; a compressed form is included and packing stops; a component that
  cannot be compressed is dropped and packing goes on.
\<close>

fun greedyPack ::
  "'b collaborators \<Rightarrow> component list \<Rightarrow> int \<Rightarrow> store \<Rightarrow> js_error + (packed list \<times> store)" where
  "greedyPack E [] unused s = Inr ([], s)"
| "greedyPack E (c # cs) unused s =
     (if componentTokens E s c \<le> unused
      then (case greedyPack E cs (unused - componentTokens E s c) s of
              Inl e \<Rightarrow> Inl e
            | Inr (r, s') \<Rightarrow> Inr (Verbatim c # r, s'))
      else (case compressComponent E s c unused of
              Inl e \<Rightarrow> Inl e
            | Inr (Some cc, s') \<Rightarrow> Inr ([cc], s')
            | Inr (None, s') \<Rightarrow> greedyPack E cs unused s'))"

text \<open>
  The value of \<open>usedTokens\<close> when the loop has gone through a run of components without
  leaving: each of them fitted, or did not fit and was declined by its compression.
  \<open>None\<close> when the loop ends inside the run (a compression returned a result, or
  threw).
\<close>

fun usedAfter ::
  "'b collaborators \<Rightarrow> int \<Rightarrow> store \<Rightarrow> component list \<Rightarrow> int \<Rightarrow> int option" where
  "usedAfter E budget s [] usedTokens = Some usedTokens"
| "usedAfter E budget s (c # cs) usedTokens =
     (if usedTokens + componentTokens E s c \<le> budget
      then usedAfter E budget s cs (usedTokens + componentTokens E s c)
      else (case compressComponent E s c (budget - usedTokens) of
              Inr (None, s') \<Rightarrow> usedAfter E budget s cs usedTokens
            | _ \<Rightarrow> None))"

subsection \<open>A concrete configuration\<close>

text \<open>
  Collaborators for the examples: a token is a character, a component serialises to its
  type tag, the metadata to \<open>{}\<close>, the prioritizer returns the context's body unchanged,
  and every summary is \<open>...\<close>.
\<close>

definition exampleCollaborators :: "component list collaborators" where
  "exampleCollaborators =
     \<lparr>tokenCounter_count = (\<lambda>t. case t of None \<Rightarrow> 0 | Some x \<Rightarrow> length x),
      JSON_stringify = (\<lambda>s c. ctype c),
      JSON_stringify_metadata = (\<lambda>m. ''{}''),
      prioritizer_prioritize = body,
      summarizer_summarize = (\<lambda>t b. ''...'')\<rparr>"

definition exampleStore :: store where
  "exampleStore =
     (\<lambda>a. if a = 0 then [\<lparr>depName = ''left-pad'', importanceScore = 1\<rparr>,
                          \<lparr>depName = ''react'', importanceScore = 9\<rparr>] else [])"

definition exampleCode :: component where
  "exampleCode = \<lparr>ctype = ''code'', path = Some ''a.ts'', content = Some ''let x = 1;'',
                   dependencies_ref = None\<rparr>"

definition exampleDeps :: component where
  "exampleDeps = \<lparr>ctype = ''dependencies'', path = None, content = None,
                   dependencies_ref = Some 0\<rparr>"

definition exampleNote :: component where
  "exampleNote = \<lparr>ctype = ''note'', path = None, content = Some ''hi'', dependencies_ref = None\<rparr>"

definition exampleContext :: "component list \<Rightarrow> component list inputContext" where
  "exampleContext cs = \<lparr>ctx_userId = Some ''u1'', ctx_projectType = None,
      ctx_requestType = None, ctx_timestamp = None, body = cs\<rparr>"

section \<open>Properties of the task decomposer\<close>

subsection \<open>Normalization\<close>

lemma bindE_Inr: "bindE r f = Inr y \<Longrightarrow> \<exists>v. r = Inr v \<and> f v = Inr y"
  by (cases r) (simp_all add: bindE_def)

lemma enrichTask_metadata:
  assumes "enrichTask index task = Inr out"
  shows "enrichedMetadata out ''status'' = Some (keptOrDefault task ''status'' (JStr ''pending''))"
    and "enrichedMetadata out ''retries'' = Some (keptOrDefault task ''retries'' (JNum 0))"
proof -
  from assms obtain md content' taskType' newContent where
    md: "getProp task ''metadata'' = Inr md"
    and out: "out = \<lparr>enrichedContent = newContent,
            enrichedMetadata =
              map_of [(''taskId'', orElse (optGet md ''taskId'') (JStr (''task-'' @ showNat (index + 1)))),
                      (''taskName'', orElse (optGet md ''taskName'') (JStr (''Task '' @ showNat (index + 1)))),
                      (''taskType'', taskType'),
                      (''priority'', orElse (optGet md ''priority'') (JNum 1)),
                      (''dependencies'', orElse (optGet md ''dependencies'') (JArr [])),
                      (''status'', JStr ''pending''),
                      (''retries'', JNum 0)]
              ++ map_of (spreadEntries md)\<rparr>"
    unfolding enrichTask_def Let_def
    by (auto dest!: bindE_Inr)
  from md have cm: "callerMetadata task = md" by (simp add: callerMetadata_def)
  show "enrichedMetadata out ''status'' = Some (keptOrDefault task ''status'' (JStr ''pending''))"
    by (simp add: out keptOrDefault_def cm map_add_def split: option.splits)
  show "enrichedMetadata out ''retries'' = Some (keptOrDefault task ''retries'' (JNum 0))"
    by (simp add: out keptOrDefault_def cm map_add_def split: option.splits)
qed

lemma enrichFrom_nth:
  "enrichFrom k tasks = Inr out \<Longrightarrow>
     length out = length tasks \<and> (\<forall>i < length tasks. enrichTask (k + i) (tasks ! i) = Inr (out ! i))"
proof (induction tasks arbitrary: k out)
  case Nil
  then show ?case by simp
next
  case (Cons t ts)
  from Cons.prems obtain o1 os where
    h: "enrichTask k t = Inr o1" and r: "enrichFrom (k + 1) ts = Inr os" and out: "out = o1 # os"
    by (auto split: sum.splits)
  from Cons.IH [OF r] have len: "length os = length ts"
    and nth: "\<forall>i < length ts. enrichTask (k + 1 + i) (ts ! i) = Inr (os ! i)" by auto
  show ?case
  proof (intro conjI allI impI)
    show "length out = length (t # ts)" by (simp add: out len)
  next
    fix i assume "i < length (t # ts)"
    then show "enrichTask (k + i) ((t # ts) ! i) = Inr (out ! i)"
      using h nth out by (cases i) auto
  qed
qed

text \<open>
  C3, as stated, fails. A candidate whose metadata says \<open>status: 'completed'\<close> and
  \<open>retries: 3\<close> comes out of the normalization with these values: the object literal
  writes \<open>status: 'pending', retries: 0\<close> first and spreads \<open>task.metadata\<close> after them.
\<close>

theorem validateAndEnrichTasks_status_counterexample:
  "map_sum id (map (metadataField ''status'')) (validateAndEnrichTasks [exampleCandidate])
     = Inr [Some (JStr ''completed'')] \<and>
   map_sum id (map (metadataField ''status'')) (validateAndEnrichTasks [exampleCandidate])
     \<noteq> Inr [Some (JStr ''pending'')] \<and>
   map_sum id (map (metadataField ''retries'')) (validateAndEnrichTasks [exampleCandidate])
     = Inr [Some (JNum 3)] \<and>
   map_sum id (map (metadataField ''retries'')) (validateAndEnrichTasks [exampleCandidate])
     \<noteq> Inr [Some (JNum 0)]"
  by code_simp

text \<open>
  C3, amended. Every candidate that passes the normalization yields one record, in
  order; its \<open>status\<close> is the value the caller's metadata carries for \<open>status\<close>, and
  \<open>'pending'\<close> when it carries none; its \<open>retries\<close> is the value the caller's metadata
  carries for \<open>retries\<close>, and 0 when it carries none.
\<close>

theorem validateAndEnrichTasks_keeps_caller_status:
  assumes "validateAndEnrichTasks tasks = Inr out" and "i < length tasks"
  shows "length out = length tasks \<and>
         enrichedMetadata (out ! i) ''status'' =
           Some (keptOrDefault (tasks ! i) ''status'' (JStr ''pending'')) \<and>
         enrichedMetadata (out ! i) ''retries'' =
           Some (keptOrDefault (tasks ! i) ''retries'' (JNum 0))"
proof -
  from assms(1) have "enrichFrom 0 tasks = Inr out" by (simp add: validateAndEnrichTasks_def)
  from enrichFrom_nth [OF this] assms(2)
  have len: "length out = length tasks" and e: "enrichTask i (tasks ! i) = Inr (out ! i)"
    by auto
  from len enrichTask_metadata [OF e] show ?thesis by simp
qed

theorem validateAndEnrichTasks_keeps_caller_status_witness:
  "\<exists>out. validateAndEnrichTasks [exampleCandidate, JObj []] = Inr out \<and>
         enrichedMetadata (out ! 0) ''status'' = Some (JStr ''completed'') \<and>
         enrichedMetadata (out ! 0) ''retries'' = Some (JNum 3) \<and>
         enrichedMetadata (out ! 1) ''status'' = Some (JStr ''pending'') \<and>
         enrichedMetadata (out ! 1) ''retries'' = Some (JNum 0)"
proof -
  have "map_sum id (map (metadataField ''status''))
          (validateAndEnrichTasks [exampleCandidate, JObj []])
        = Inr [Some (JStr ''completed''), Some (JStr ''pending'')]"
    by code_simp
  then obtain out where out: "validateAndEnrichTasks [exampleCandidate, JObj []] = Inr out"
    by (cases "validateAndEnrichTasks [exampleCandidate, JObj []]") auto
  have k: "keptOrDefault exampleCandidate ''status'' (JStr ''pending'') = JStr ''completed''"
    "keptOrDefault exampleCandidate ''retries'' (JNum 0) = JNum 3"
    "keptOrDefault (JObj []) ''status'' (JStr ''pending'') = JStr ''pending''"
    "keptOrDefault (JObj []) ''retries'' (JNum 0) = JNum 0"
    by code_simp+
  from validateAndEnrichTasks_keeps_caller_status [OF out, of 0]
       validateAndEnrichTasks_keeps_caller_status [OF out, of 1] k
  have "enrichedMetadata (out ! 0) ''status'' = Some (JStr ''completed'') \<and>
         enrichedMetadata (out ! 0) ''retries'' = Some (JNum 3) \<and>
         enrichedMetadata (out ! 1) ''status'' = Some (JStr ''pending'') \<and>
         enrichedMetadata (out ! 1) ''retries'' = Some (JNum 0)"
    by simp
  with out show ?thesis by blast
qed

subsection \<open>The depth-first traversal\<close>

lemma visit_success:
  "visit n tm g t st = Some (Inr st') \<Longrightarrow>
     temp st' = temp st \<and> visited st \<subseteq> visited st' \<and> t \<in> visited st' \<and>
     (visited st' - visited st) \<inter> temp st = {}"
  "visitEach n tm g ds st = Some (Inr st') \<Longrightarrow>
     temp st' = temp st \<and> visited st \<subseteq> visited st' \<and> set ds \<subseteq> visited st' \<and>
     (visited st' - visited st) \<inter> temp st = {}"
proof (induction n tm g t st and n tm g ds st arbitrary: st' and st'
    rule: visit_visitEach.induct)
  case (1 tm g tid st)
  then show ?case by simp
next
  case (2 n tm g tid st)
  show ?case
  proof (cases "tid \<in> temp st \<or> tid \<in> visited st")
    case True
    with "2.prems" show ?thesis by (auto split: if_splits)
  next
    case False
    with "2.prems" obtain st2 where
      each: "visitEach n tm g (graphGet g tid) (st\<lparr>temp := insert tid (temp st)\<rparr>) = Some (Inr st2)"
      and st': "st' = finishVisit tm tid st2"
      by (auto split: option.splits sum.splits)
    from "2.IH" [OF _ _ each] False
    have ih: "temp st2 = insert tid (temp st)" "visited st \<subseteq> visited st2"
      "(visited st2 - visited st) \<inter> insert tid (temp st) = {}"
      by auto
    have fv: "temp st' = temp st2 - {tid}" "visited st' = insert tid (visited st2)"
      by (auto simp: st' finishVisit_def Let_def split: option.splits)
    from ih fv False show ?thesis by auto
  qed
next
  case (3 n tm g st)
  then show ?case by simp
next
  case (4 n tm g depId rest st)
  from "4.prems" obtain st1 where
    v: "visit n tm g depId st = Some (Inr st1)"
    and r: "visitEach n tm g rest st1 = Some (Inr st')"
    by (auto split: option.splits sum.splits)
  from "4.IH"(1) [OF v] "4.IH"(2) [OF v refl r]
  show ?case by auto
qed

lemma stateInv_temp [simp]: "stateInv tm g (st\<lparr>temp := T\<rparr>) = stateInv tm g st"
  by (simp add: stateInv_def orderIds_def)

lemma stateInv_finishVisit:
  assumes wf: "planWf tm g" and key: "map_of tm t \<noteq> None"
    and inv: "stateInv tm g st" and deps: "set (graphGet g t) \<subseteq> visited st"
    and new: "t \<notin> visited st"
  shows "stateInv tm g (finishVisit tm t st)"
proof -
  from key obtain task where task: "map_of tm t = Some task" by auto
  with wf have tid: "taskId (metadata task) = t" by (auto simp: planWf_def)
  have o: "orderIds (finishVisit tm t st) = orderIds st @ [t]"
    and v: "visited (finishVisit tm t st) = insert t (visited st)"
    and e: "executionOrder (finishVisit tm t st) = executionOrder st @ [task]"
    by (simp_all add: finishVisit_def Let_def task orderIds_def tid)
  from inv deps new show ?thesis
    unfolding stateInv_def o v e by (auto simp: tid task)
qed

lemma visit_inv:
  "visit n tm g t st = Some (Inr st') \<Longrightarrow> planWf tm g \<Longrightarrow> map_of tm t \<noteq> None \<Longrightarrow>
     stateInv tm g st \<Longrightarrow> stateInv tm g st'"
  "visitEach n tm g ds st = Some (Inr st') \<Longrightarrow> planWf tm g \<Longrightarrow>
     (\<forall>d \<in> set ds. map_of tm d \<noteq> None) \<Longrightarrow> stateInv tm g st \<Longrightarrow> stateInv tm g st'"
proof (induction n tm g t st and n tm g ds st arbitrary: st' and st'
    rule: visit_visitEach.induct)
  case (1 tm g tid st)
  then show ?case by simp
next
  case (2 n tm g tid st)
  show ?case
  proof (cases "tid \<in> temp st \<or> tid \<in> visited st")
    case True
    with "2.prems" show ?thesis by (auto split: if_splits)
  next
    case False
    let ?st1 = "st\<lparr>temp := insert tid (temp st)\<rparr>"
    from False "2.prems"(1) obtain st2 where
      each: "visitEach n tm g (graphGet g tid) ?st1 = Some (Inr st2)"
      and st': "st' = finishVisit tm tid st2"
      by (auto split: option.splits sum.splits)
    from "2.prems"(2) have keys: "\<forall>d \<in> set (graphGet g tid). map_of tm d \<noteq> None"
      by (auto simp: planWf_def)
    from False have "tid \<notin> temp st" "tid \<notin> visited st" by auto
    from "2.IH" [OF this each "2.prems"(2) keys] "2.prems"(4)
    have inv2: "stateInv tm g st2" by simp
    from visit_success(2) [OF each] False
    have deps: "set (graphGet g tid) \<subseteq> visited st2" and new: "tid \<notin> visited st2"
      by auto
    from stateInv_finishVisit [OF "2.prems"(2,3) inv2 deps new] st' show ?thesis by simp
  qed
next
  case (3 n tm g st)
  then show ?case by simp
next
  case (4 n tm g depId rest st)
  from "4.prems"(1) obtain st1 where
    v: "visit n tm g depId st = Some (Inr st1)"
    and r: "visitEach n tm g rest st1 = Some (Inr st')"
    by (auto split: option.splits sum.splits)
  from "4.IH"(1) [OF v "4.prems"(2) _ "4.prems"(4)] "4.prems"(3)
  have "stateInv tm g st1" by simp
  from "4.IH"(2) [OF v refl r "4.prems"(2) _ this] "4.prems"(3)
  show ?case by simp
qed

lemma visit_error:
  "visit n tm g t st = Some (Inl e) \<Longrightarrow> (\<forall>u \<in> temp st. (u, t) \<in> (graphRel g)\<^sup>+) \<Longrightarrow>
     \<exists>x. e = DependencyCycle x \<and> (x, x) \<in> (graphRel g)\<^sup>+"
  "visitEach n tm g ds st = Some (Inl e) \<Longrightarrow>
     (\<forall>u \<in> temp st. \<forall>d \<in> set ds. (u, d) \<in> (graphRel g)\<^sup>+) \<Longrightarrow>
     \<exists>x. e = DependencyCycle x \<and> (x, x) \<in> (graphRel g)\<^sup>+"
proof (induction n tm g t st and n tm g ds st rule: visit_visitEach.induct)
  case (1 tm g tid st)
  then show ?case by simp
next
  case (2 n tm g tid st)
  show ?case
  proof (cases "tid \<in> temp st")
    case True
    with "2.prems" show ?thesis by auto
  next
    case False
    with "2.prems"(1) have nv: "tid \<notin> visited st"
      by (auto split: if_splits)
    let ?st1 = "st\<lparr>temp := insert tid (temp st)\<rparr>"
    from False nv "2.prems"(1) have
      each: "visitEach n tm g (graphGet g tid) ?st1 = Some (Inl e)"
      by (auto split: option.splits sum.splits)
    have "\<forall>u \<in> temp ?st1. \<forall>d \<in> set (graphGet g tid). (u, d) \<in> (graphRel g)\<^sup>+"
    proof (intro ballI)
      fix u d assume u: "u \<in> temp ?st1" and d: "d \<in> set (graphGet g tid)"
      from d have step: "(tid, d) \<in> graphRel g" by (simp add: graphRel_def)
      show "(u, d) \<in> (graphRel g)\<^sup>+"
      proof (cases "u = tid")
        case True
        with step show ?thesis by auto
      next
        case False
        with u have "u \<in> temp st" by simp
        with "2.prems"(2) have "(u, tid) \<in> (graphRel g)\<^sup>+" by blast
        from this step show ?thesis by (rule trancl_into_trancl)
      qed
    qed
    from "2.IH" [OF False nv each this] show ?thesis .
  qed
next
  case (3 n tm g st)
  then show ?case by simp
next
  case (4 n tm g depId rest st)
  show ?case
  proof (cases "visit n tm g depId st")
    case None
    with "4.prems"(1) show ?thesis by simp
  next
    case (Some r)
    show ?thesis
    proof (cases r)
      case (Inl e')
      with Some "4.prems"(1) have "e' = e" by simp
      with Some Inl have "visit n tm g depId st = Some (Inl e)" by simp
      from "4.IH"(1) [OF this] "4.prems"(2) show ?thesis by auto
    next
      case (Inr st1)
      with Some "4.prems"(1) have r: "visitEach n tm g rest st1 = Some (Inl e)" by simp
      from visit_success(1) Some Inr have "temp st1 = temp st" by blast
      with "4.IH"(2) [OF Some Inr r] "4.prems"(2) show ?thesis by auto
    qed
  qed
qed

lemma visit_total:
  "planWf tm g \<Longrightarrow> map_of tm t \<noteq> None \<Longrightarrow> temp st \<subseteq> dom (map_of tm) \<Longrightarrow>
     card (dom (map_of tm) - temp st) < n \<Longrightarrow> visit n tm g t st \<noteq> None"
  "planWf tm g \<Longrightarrow> (\<forall>d \<in> set ds. map_of tm d \<noteq> None) \<Longrightarrow> temp st \<subseteq> dom (map_of tm) \<Longrightarrow>
     card (dom (map_of tm) - temp st) < n \<Longrightarrow> visitEach n tm g ds st \<noteq> None"
proof (induction n tm g t st and n tm g ds st rule: visit_visitEach.induct)
  case (1 tm g tid st)
  then show ?case by simp
next
  case (2 n tm g tid st)
  show ?case
  proof (cases "tid \<in> temp st \<or> tid \<in> visited st")
    case True
    then show ?thesis by auto
  next
    case False
    let ?K = "dom (map_of tm)"
    let ?st1 = "st\<lparr>temp := insert tid (temp st)\<rparr>"
    from False have nt: "tid \<notin> temp st" and nv: "tid \<notin> visited st" by auto
    from "2.prems"(2) have inK: "tid \<in> ?K" by auto
    have fin: "finite (?K - temp st)" by (simp add: finite_dom_map_of)
    from inK nt have mem: "tid \<in> ?K - temp st" by simp
    have "?K - insert tid (temp st) = (?K - temp st) - {tid}" by auto
    with fin mem have "card (?K - insert tid (temp st)) = card (?K - temp st) - 1"
      by simp
    moreover from fin mem have "0 < card (?K - temp st)"
      by (metis card_gt_0_iff empty_iff)
    ultimately have c: "card (?K - temp ?st1) < n" using "2.prems"(4) by simp
    from "2.prems"(1) have keys: "\<forall>d \<in> set (graphGet g tid). map_of tm d \<noteq> None"
      by (auto simp: planWf_def)
    from "2.prems"(3) inK have sub: "temp ?st1 \<subseteq> ?K" by simp
    from "2.IH" [OF nt nv "2.prems"(1) keys sub c] nt nv
    show ?thesis by (auto split: option.splits sum.splits)
  qed
next
  case (3 n tm g st)
  then show ?case by simp
next
  case (4 n tm g depId rest st)
  from "4.prems" have v: "visit n tm g depId st \<noteq> None"
    by (intro "4.IH"(1)) auto
  then obtain r where r: "visit n tm g depId st = Some r" by auto
  show ?case
  proof (cases r)
    case (Inl e)
    with r show ?thesis by simp
  next
    case (Inr st1)
    from visit_success(1) r Inr have t: "temp st1 = temp st" by blast
    from "4.IH"(2) [OF r Inr "4.prems"(1)] "4.prems"(2,3,4) t
    have "visitEach n tm g rest st1 \<noteq> None" by simp
    with r Inr show ?thesis by simp
  qed
qed

text \<open>The outer loop.\<close>

lemma visitAll_success:
  "visitAll n tm g ks st = Some (Inr st') \<Longrightarrow> temp st = {} \<Longrightarrow>
     temp st' = {} \<and> visited st \<subseteq> visited st' \<and> set ks \<subseteq> visited st'"
proof (induction ks arbitrary: st)
  case Nil
  then show ?case by simp
next
  case (Cons k ks)
  show ?case
  proof (cases "k \<in> visited st")
    case True
    with Cons.prems have "visitAll n tm g ks st = Some (Inr st')" by simp
    from Cons.IH [OF this Cons.prems(2)] True show ?thesis by auto
  next
    case False
    with Cons.prems(1) obtain st1 where
      v: "visit n tm g k st = Some (Inr st1)" and r: "visitAll n tm g ks st1 = Some (Inr st')"
      by (auto split: option.splits sum.splits)
    from visit_success(1) [OF v] Cons.prems(2)
    have s1: "temp st1 = {}" "visited st \<subseteq> visited st1" "k \<in> visited st1" by auto
    from Cons.IH [OF r s1(1)] s1 show ?thesis by auto
  qed
qed

lemma visitAll_inv:
  "visitAll n tm g ks st = Some (Inr st') \<Longrightarrow> planWf tm g \<Longrightarrow>
     (\<forall>k \<in> set ks. map_of tm k \<noteq> None) \<Longrightarrow> stateInv tm g st \<Longrightarrow> stateInv tm g st'"
proof (induction ks arbitrary: st)
  case Nil
  then show ?case by simp
next
  case (Cons k ks)
  show ?case
  proof (cases "k \<in> visited st")
    case True
    with Cons.prems have "visitAll n tm g ks st = Some (Inr st')" by simp
    from Cons.IH [OF this Cons.prems(2) _ Cons.prems(4)] Cons.prems(3) show ?thesis by simp
  next
    case False
    with Cons.prems(1) obtain st1 where
      v: "visit n tm g k st = Some (Inr st1)" and r: "visitAll n tm g ks st1 = Some (Inr st')"
      by (auto split: option.splits sum.splits)
    from visit_inv(1) [OF v Cons.prems(2) _ Cons.prems(4)] Cons.prems(3)
    have "stateInv tm g st1" by simp
    from Cons.IH [OF r Cons.prems(2) _ this] Cons.prems(3) show ?thesis by simp
  qed
qed

lemma visitAll_error:
  "visitAll n tm g ks st = Some (Inl e) \<Longrightarrow> temp st = {} \<Longrightarrow>
     \<exists>x. e = DependencyCycle x \<and> (x, x) \<in> (graphRel g)\<^sup>+"
proof (induction ks arbitrary: st)
  case Nil
  then show ?case by simp
next
  case (Cons k ks)
  show ?case
  proof (cases "k \<in> visited st")
    case True
    with Cons.prems have "visitAll n tm g ks st = Some (Inl e)" by simp
    from Cons.IH [OF this Cons.prems(2)] show ?thesis .
  next
    case False
    show ?thesis
    proof (cases "visit n tm g k st")
      case None
      with False Cons.prems(1) show ?thesis by simp
    next
      case (Some r)
      show ?thesis
      proof (cases r)
        case (Inl e')
        with Some False Cons.prems(1) have "visit n tm g k st = Some (Inl e)" by simp
        from visit_error(1) [OF this] Cons.prems(2) show ?thesis by simp
      next
        case (Inr st1)
        with Some False Cons.prems(1) have r: "visitAll n tm g ks st1 = Some (Inl e)" by simp
        from visit_success(1) Some Inr Cons.prems(2) have "temp st1 = {}" by blast
        from Cons.IH [OF r this] show ?thesis .
      qed
    qed
  qed
qed

lemma visitAll_total:
  "planWf tm g \<Longrightarrow> (\<forall>k \<in> set ks. map_of tm k \<noteq> None) \<Longrightarrow> temp st = {} \<Longrightarrow>
     card (dom (map_of tm)) < n \<Longrightarrow> visitAll n tm g ks st \<noteq> None"
proof (induction ks arbitrary: st)
  case Nil
  then show ?case by simp
next
  case (Cons k ks)
  show ?case
  proof (cases "k \<in> visited st")
    case True
    with Cons.IH [OF Cons.prems(1) _ Cons.prems(3,4)] Cons.prems(2) show ?thesis by simp
  next
    case False
    from Cons.prems have "visit n tm g k st \<noteq> None"
      by (intro visit_total(1)) auto
    then obtain r where r: "visit n tm g k st = Some r" by auto
    show ?thesis
    proof (cases r)
      case (Inl e)
      with r False show ?thesis by simp
    next
      case (Inr st1)
      from visit_success(1) r Inr Cons.prems(3) have "temp st1 = {}" by blast
      from Cons.IH [OF Cons.prems(1) _ this Cons.prems(4)] Cons.prems(2)
      have "visitAll n tm g ks st1 \<noteq> None" by simp
      with r Inr False show ?thesis by simp
    qed
  qed
qed

text \<open>An order with dependents first rules out a cycle.\<close>

lemma dependentsFirst_closed:
  "dependentsFirst g xs \<Longrightarrow> a \<in> set xs \<Longrightarrow> (a, b) \<in> graphRel g \<Longrightarrow> b \<in> set xs"
  by (induction xs) (auto simp: graphRel_def)

lemma dependentsFirst_closed_trancl:
  "(a, b) \<in> (graphRel g)\<^sup>+ \<Longrightarrow> dependentsFirst g xs \<Longrightarrow> a \<in> set xs \<Longrightarrow> b \<in> set xs"
  by (induction rule: trancl_induct) (auto dest: dependentsFirst_closed)

lemma dependentsFirst_acyclic:
  "dependentsFirst g xs \<Longrightarrow> x \<in> set xs \<Longrightarrow> (x, x) \<notin> (graphRel g)\<^sup>+"
proof (induction xs)
  case Nil
  then show ?case by simp
next
  case (Cons y ys)
  show ?case
  proof (cases "x \<in> set ys")
    case True
    with Cons show ?thesis by simp
  next
    case False
    with Cons.prems have xy: "x = y" by simp
    show ?thesis
    proof
      assume "(x, x) \<in> (graphRel g)\<^sup>+"
      then obtain z where z: "(x, z) \<in> graphRel g" and zx: "(z, x) \<in> (graphRel g)\<^sup>*"
        by (meson converse_tranclE rtrancl_eq_or_trancl tranclD)
      from z xy Cons.prems(1) have zin: "z \<in> set ys" by (auto simp: graphRel_def)
      from zx have "z = x \<or> (z, x) \<in> (graphRel g)\<^sup>+" by (auto simp: rtrancl_eq_or_trancl)
      then have "x \<in> set ys"
      proof
        assume "z = x" with zin show ?thesis by simp
      next
        assume "(z, x) \<in> (graphRel g)\<^sup>+"
        from dependentsFirst_closed_trancl [OF this _ zin] Cons.prems(1) show ?thesis by simp
      qed
      with False show False by contradiction
    qed
  qed
qed

lemma taskMap_fold:
  "map_of (fold (\<lambda>task m. AList.update (idOf task) task m) tasks m0) k = Some v \<Longrightarrow>
     (map_of m0 k = Some v) \<or> (v \<in> set tasks \<and> idOf v = k)"
proof (induction tasks arbitrary: m0)
  case Nil
  then show ?case by simp
next
  case (Cons t ts)
  from Cons.IH [of "AList.update (idOf t) t m0"] Cons.prems
  show ?case by (auto simp: update_conv' split: if_splits)
qed

lemma taskMap_fold_keys:
  "fst ` set (fold (\<lambda>task m. AList.update (idOf task) task m) tasks m0) =
     fst ` set m0 \<union> idOf ` set tasks"
  by (induction tasks arbitrary: m0) (auto simp: dom_update)

lemma taskMap_fold_distinct:
  "distinct (map fst m0) \<Longrightarrow>
   distinct (map fst (fold (\<lambda>task m. AList.update (idOf task) task m) tasks m0))"
  by (induction tasks arbitrary: m0) (auto simp: distinct_update)

lemma buildTaskMap_entry:
  "map_of (buildTaskMap tasks) k = Some v \<Longrightarrow> v \<in> set tasks \<and> idOf v = k"
  using taskMap_fold [of tasks "[]" k v] by (simp add: buildTaskMap_def)

lemma buildTaskMap_keys: "fst ` set (buildTaskMap tasks) = idOf ` set tasks"
  by (simp add: buildTaskMap_def taskMap_fold_keys)

lemma buildTaskMap_dom: "dom (map_of (buildTaskMap tasks)) = idOf ` set tasks"
  by (simp add: dom_map_of_conv_image_fst buildTaskMap_keys)

lemma buildTaskMap_distinct: "distinct (map fst (buildTaskMap tasks))"
  by (simp add: buildTaskMap_def taskMap_fold_distinct)

lemma map_has_buildTaskMap: "map_has (buildTaskMap tasks) k \<longleftrightarrow> k \<in> idOf ` set tasks"
  using buildTaskMap_dom [of tasks] by (auto simp: map_has_def)

lemma update_fresh: "k \<notin> fst ` set al \<Longrightarrow> AList.update k v al = al @ [(k, v)]"
  by (induction al) auto

lemma taskMap_fold_distinct_ids:
  "distinct (map idOf tasks) \<Longrightarrow> fst ` set m0 \<inter> idOf ` set tasks = {} \<Longrightarrow>
   fold (\<lambda>task m. AList.update (idOf task) task m) tasks m0 = m0 @ map (\<lambda>t. (idOf t, t)) tasks"
proof (induction tasks arbitrary: m0)
  case Nil
  then show ?case by simp
next
  case (Cons t ts)
  from Cons.prems have fresh: "idOf t \<notin> fst ` set m0" by auto
  from Cons.prems have "fst ` set (m0 @ [(idOf t, t)]) \<inter> idOf ` set ts = {}" by auto
  with Cons.IH [of "m0 @ [(idOf t, t)]"] Cons.prems(1) fresh
  show ?case by (simp add: update_fresh)
qed

lemma buildTaskMap_distinct_ids:
  "distinct (map idOf tasks) \<Longrightarrow> buildTaskMap tasks = map (\<lambda>t. (idOf t, t)) tasks"
  using taskMap_fold_distinct_ids [of tasks "[]"] by (simp add: buildTaskMap_def)

text \<open>The dependency graph.\<close>

lemma initGraph_fold:
  "map_of (fold (\<lambda>task g. AList.update (idOf task) [] g) tasks g0) k =
     (if k \<in> idOf ` set tasks then Some [] else map_of g0 k)"
  by (induction tasks arbitrary: g0) (auto simp: update_conv')

lemma initGraph_map_of:
  "map_of (initGraph tasks) k = (if k \<in> idOf ` set tasks then Some [] else None)"
  by (simp add: initGraph_def initGraph_fold)

lemma addDependency_dom: "dom (map_of (addDependency tm a d g)) = dom (map_of g)"
  by (auto simp: addDependency_def update_conv' split: option.splits if_splits)

lemma addDependency_get:
  "set (graphGet (addDependency tm a d g) k) =
     set (graphGet g k) \<union> (if k = a \<and> a \<in> dom (map_of g) \<and> map_has tm d then {d} else {})"
  by (auto simp: addDependency_def graphGet_def update_conv' set_add_def
      split: option.splits if_splits)

lemma addDependencies_dom:
  "dom (map_of (fold (addDependency tm a) ds g)) = dom (map_of g)"
  by (induction ds arbitrary: g) (simp_all add: addDependency_dom)

lemma addDependencies_get:
  "set (graphGet (fold (addDependency tm a) ds g) k) =
     set (graphGet g k) \<union>
     (if k = a \<and> a \<in> dom (map_of g) then {d \<in> set ds. map_has tm d} else {})"
proof (induction ds arbitrary: g)
  case Nil
  then show ?case by simp
next
  case (Cons d ds)
  show ?case
    by (simp add: Cons.IH addDependency_get addDependency_dom) blast
qed

lemma populateGraph_dom: "dom (map_of (populateGraph tm tasks g)) = dom (map_of g)"
  unfolding populateGraph_def
  by (induction tasks arbitrary: g) (simp_all add: addDependencies_dom)

lemma populateGraph_get:
  "idOf ` set tasks \<subseteq> dom (map_of g) \<Longrightarrow>
   set (graphGet (populateGraph tm tasks g) k) =
     set (graphGet g k) \<union>
     {d. \<exists>t \<in> set tasks. idOf t = k \<and> d \<in> set (dependenciesOf t) \<and> map_has tm d}"
  unfolding populateGraph_def
proof (induction tasks arbitrary: g)
  case Nil
  then show ?case by simp
next
  case (Cons t ts)
  let ?g1 = "fold (addDependency tm (idOf t)) (dependenciesOf t) g"
  from Cons.prems have "idOf ` set ts \<subseteq> dom (map_of ?g1)"
    by (simp add: addDependencies_dom)
  from Cons.IH [OF this] Cons.prems show ?case
    by (simp add: addDependencies_get) blast
qed

lemma graphRel_plan:
  "graphRel (populateGraph (buildTaskMap tasks) tasks (initGraph tasks)) =
   inPlanDependencies tasks"
proof -
  have dom: "idOf ` set tasks \<subseteq> dom (map_of (initGraph tasks))"
    by (auto simp: initGraph_map_of)
  have empty: "\<And>k. graphGet (initGraph tasks) k = []"
    by (simp add: graphGet_def initGraph_map_of)
  show ?thesis
    unfolding graphRel_def inPlanDependencies_def
    by (auto simp: populateGraph_get [OF dom] empty map_has_buildTaskMap)
qed

lemma planWf_plan:
  "planWf (buildTaskMap tasks) (populateGraph (buildTaskMap tasks) tasks (initGraph tasks))"
proof -
  have dom: "idOf ` set tasks \<subseteq> dom (map_of (initGraph tasks))"
    by (auto simp: initGraph_map_of)
  have empty: "\<And>k. graphGet (initGraph tasks) k = []"
    by (simp add: graphGet_def initGraph_map_of)
  show ?thesis
    unfolding planWf_def
    by (auto simp: populateGraph_get [OF dom] empty map_has_def dest: buildTaskMap_entry)
qed

lemma buildExecutionPlan_alt:
  "buildExecutionPlan fuel tasks =
     (case visitAll fuel (buildTaskMap tasks)
             (populateGraph (buildTaskMap tasks) tasks (initGraph tasks))
             (map fst (buildTaskMap tasks)) initialState of
        None \<Rightarrow> None
      | Some (Inl e) \<Rightarrow> Some (Inl e)
      | Some (Inr st) \<Rightarrow> Some (Inr (rev (executionOrder st))))"
  by (simp add: buildExecutionPlan_def Let_def initialState_def)

lemma stateInv_initial: "stateInv tm g initialState"
  by (simp add: stateInv_def initialState_def orderIds_def)

lemma keys_in_map: "\<forall>k \<in> set (map fst tm). map_of tm k \<noteq> None"
  by (auto simp: map_of_eq_None_iff)

lemma card_plan_keys: "card (dom (map_of (buildTaskMap tasks))) \<le> length tasks"
proof -
  have "card (idOf ` set tasks) \<le> card (set tasks)" by (rule card_image_le) simp
  also have "\<dots> \<le> length tasks" by (rule card_length)
  finally show ?thesis by (simp add: buildTaskMap_dom)
qed

lemma plan_total: "length tasks < fuel \<Longrightarrow> buildExecutionPlan fuel tasks \<noteq> None"
proof -
  assume "length tasks < fuel"
  with card_plan_keys [of tasks] have c: "card (dom (map_of (buildTaskMap tasks))) < fuel"
    by simp
  have "visitAll fuel (buildTaskMap tasks)
          (populateGraph (buildTaskMap tasks) tasks (initGraph tasks))
          (map fst (buildTaskMap tasks)) initialState \<noteq> None"
    by (rule visitAll_total [OF planWf_plan keys_in_map _ c]) (simp add: initialState_def)
  then show ?thesis
    by (auto simp: buildExecutionPlan_alt split: option.splits sum.splits)
qed

lemma plan_error:
  assumes "buildExecutionPlan fuel tasks = Some (Inl e)"
  shows "\<exists>x. e = DependencyCycle x \<and> (x, x) \<in> (inPlanDependencies tasks)\<^sup>+"
proof -
  from assms have "visitAll fuel (buildTaskMap tasks)
          (populateGraph (buildTaskMap tasks) tasks (initGraph tasks))
          (map fst (buildTaskMap tasks)) initialState = Some (Inl e)"
    by (auto simp: buildExecutionPlan_alt split: option.splits sum.splits)
  from visitAll_error [OF this] show ?thesis
    by (simp add: initialState_def graphRel_plan)
qed

lemma plan_success:
  assumes "buildExecutionPlan fuel tasks = Some (Inr plan)"
  shows "set (map idOf plan) = idOf ` set tasks"
    and "distinct (map idOf plan)"
    and "dependentsFirst (populateGraph (buildTaskMap tasks) tasks (initGraph tasks))
           (map idOf plan)"
    and "\<forall>e \<in> set plan. map_of (buildTaskMap tasks) (idOf e) = Some e"
proof -
  let ?tm = "buildTaskMap tasks"
  let ?g = "populateGraph ?tm tasks (initGraph tasks)"
  from assms obtain st where
    all: "visitAll fuel ?tm ?g (map fst ?tm) initialState = Some (Inr st)"
    and plan: "plan = rev (executionOrder st)"
    by (auto simp: buildExecutionPlan_alt split: option.splits sum.splits)
  from visitAll_inv [OF all planWf_plan keys_in_map stateInv_initial]
  have inv: "stateInv ?tm ?g st" .
  from visitAll_success [OF all] have keys: "set (map fst ?tm) \<subseteq> visited st"
    by (simp add: initialState_def)
  have ids: "map idOf plan = rev (orderIds st)"
    by (simp add: plan orderIds_def rev_map)
  from inv show "distinct (map idOf plan)" by (simp add: ids stateInv_def)
  from inv show "dependentsFirst ?g (map idOf plan)" by (simp add: ids stateInv_def)
  from inv show mem: "\<forall>e \<in> set plan. map_of ?tm (idOf e) = Some e"
    by (simp add: plan stateInv_def)
  have "set (map idOf plan) \<subseteq> idOf ` set tasks"
  proof
    fix k assume "k \<in> set (map idOf plan)"
    then obtain e where "e \<in> set plan" "k = idOf e" by auto
    with mem have "map_of ?tm k = Some e" by simp
    then have "k \<in> dom (map_of ?tm)" by auto
    then show "k \<in> idOf ` set tasks" by (simp add: buildTaskMap_dom)
  qed
  moreover from keys inv have "idOf ` set tasks \<subseteq> set (map idOf plan)"
    by (simp add: ids stateInv_def buildTaskMap_keys)
  ultimately show "set (map idOf plan) = idOf ` set tasks" by (rule equalityI)
qed

lemma inPlanDependencies_source:
  "(a, b) \<in> (inPlanDependencies tasks)\<^sup>+ \<Longrightarrow> a \<in> idOf ` set tasks"
  by (induction rule: trancl_induct) (auto simp: inPlanDependencies_def)

lemma plan_success_acyclic:
  assumes "buildExecutionPlan fuel tasks = Some (Inr plan)"
  shows "(x, x) \<notin> (inPlanDependencies tasks)\<^sup>+"
proof
  assume cyc: "(x, x) \<in> (inPlanDependencies tasks)\<^sup>+"
  then have "x \<in> idOf ` set tasks" by (rule inPlanDependencies_source)
  with plan_success(1) [OF assms] have "x \<in> set (map idOf plan)" by simp
  from dependentsFirst_acyclic [OF plan_success(3) [OF assms] this] cyc
  show False by (simp add: graphRel_plan)
qed

lemma plan_permutation:
  assumes ok: "buildExecutionPlan fuel tasks = Some (Inr plan)"
    and dist: "distinct (map idOf tasks)"
  shows "mset plan = mset tasks"
proof -
  have tm: "buildTaskMap tasks = map (\<lambda>t. (idOf t, t)) tasks"
    by (rule buildTaskMap_distinct_ids [OF dist])
  have sub: "set plan \<subseteq> set tasks"
  proof
    fix e assume "e \<in> set plan"
    with plan_success(4) [OF ok] have "map_of (buildTaskMap tasks) (idOf e) = Some e" by simp
    then show "e \<in> set tasks" by (auto dest: buildTaskMap_entry)
  qed
  have inj: "inj_on idOf (set tasks)" using dist by (simp add: distinct_map)
  have "set tasks \<subseteq> set plan"
  proof
    fix t assume t: "t \<in> set tasks"
    then have "idOf t \<in> set (map idOf plan)" unfolding plan_success(1) [OF ok] by simp
    then obtain e where e: "e \<in> set plan" "idOf e = idOf t" by auto
    with sub t inj have "e = t" by (auto dest: inj_onD)
    with e show "t \<in> set plan" by simp
  qed
  with sub have "set plan = set tasks" by auto
  moreover from plan_success(2) [OF ok] have "distinct plan" by (simp add: distinct_map)
  moreover from dist have "distinct tasks" by (simp add: distinct_map)
  ultimately show ?thesis by (simp add: set_eq_iff_mset_eq_distinct)
qed

lemma mapOrder_simps [simp]:
  "temp (mapOrder f st) = temp st"
  "visited (mapOrder f st) = visited st"
  "executionOrder (mapOrder f st) = map f (executionOrder st)"
  "(mapOrder f st)\<lparr>temp := T\<rparr> = mapOrder f (st\<lparr>temp := T\<rparr>)"
  by (simp_all add: mapOrder_def)

lemma map_of_map_values:
  "map_of (map (\<lambda>(k, v). (k, f v)) tm) k = map_option f (map_of tm k)"
  by (induction tm) auto

lemma finishVisit_map:
  "finishVisit (map (\<lambda>(k, v). (k, f v)) tm) t (mapOrder f st) = mapOrder f (finishVisit tm t st)"
  by (simp add: finishVisit_def Let_def map_of_map_values mapOrder_def split: option.splits)

lemma visit_map:
  "visit n (map (\<lambda>(k, v). (k, f v)) tm) g t (mapOrder f st) =
     map_option (map_sum id (mapOrder f)) (visit n tm g t st)"
  "visitEach n (map (\<lambda>(k, v). (k, f v)) tm) g ds (mapOrder f st) =
     map_option (map_sum id (mapOrder f)) (visitEach n tm g ds st)"
proof (induction n tm g t st and n tm g ds st rule: visit_visitEach.induct)
  case (1 tm g tid st)
  then show ?case by simp
next
  case (2 n tm g tid st)
  then show ?case
    by (simp add: finishVisit_map split: option.splits sum.splits)
next
  case (3 n tm g st)
  then show ?case by simp
next
  case (4 n tm g depId rest st)
  then show ?case
    by (simp split: option.splits sum.splits)
qed

lemma visitAll_map:
  "visitAll n (map (\<lambda>(k, v). (k, f v)) tm) g ks (mapOrder f st) =
     map_option (map_sum id (mapOrder f)) (visitAll n tm g ks st)"
  by (induction ks arbitrary: st) (simp_all add: visit_map split: option.splits sum.splits)

lemma update_map_values:
  "AList.update k (f v) (map (\<lambda>(k, v). (k, f v)) al) = map (\<lambda>(k, v). (k, f v)) (AList.update k v al)"
  by (induction al) auto

lemma taskMap_fold_map:
  "(\<And>t. idOf (f t) = idOf t) \<Longrightarrow>
   fold (\<lambda>task m. AList.update (idOf task) task m) (map f tasks) (map (\<lambda>(k, v). (k, f v)) m0) =
   map (\<lambda>(k, v). (k, f v)) (fold (\<lambda>task m. AList.update (idOf task) task m) tasks m0)"
  by (induction tasks arbitrary: m0) (simp_all add: update_map_values)

lemma buildTaskMap_map:
  "(\<And>t. idOf (f t) = idOf t) \<Longrightarrow>
   buildTaskMap (map f tasks) = map (\<lambda>(k, v). (k, f v)) (buildTaskMap tasks)"
  using taskMap_fold_map [of f tasks "[]"] by (simp add: buildTaskMap_def)

lemma withoutDangling_tid [simp]: "idOf (withoutDangling tasks t) = idOf t"
  by (simp add: withoutDangling_def)

lemma withoutDangling_deps:
  "dependenciesOf (withoutDangling tasks t) =
     filter (\<lambda>d. d \<in> idOf ` set tasks) (dependenciesOf t)"
  by (simp add: withoutDangling_def dependenciesOf_def split: option.splits)

lemma initGraph_map: "(\<And>t. idOf (f t) = idOf t) \<Longrightarrow> initGraph (map f tasks) = initGraph tasks"
  by (simp add: initGraph_def fold_map comp_def)

lemma addDependency_has:
  "(\<And>d. map_has tm' d = map_has tm d) \<Longrightarrow> addDependency tm' = addDependency tm"
  by (intro ext) (simp add: addDependency_def)

lemma addDependencies_filter:
  "fold (addDependency tm a) (filter (map_has tm) ds) g = fold (addDependency tm a) ds g"
  by (induction ds arbitrary: g) (simp_all add: addDependency_def)

lemma populateGraph_withoutDangling:
  "populateGraph (buildTaskMap (map (withoutDangling tasks) tasks))
       (map (withoutDangling tasks) tasks) g =
   populateGraph (buildTaskMap tasks) tasks g"
proof -
  let ?f = "withoutDangling tasks"
  have has: "\<And>d. map_has (buildTaskMap (map ?f tasks)) d = map_has (buildTaskMap tasks) d"
    by (simp add: map_has_buildTaskMap image_image)
  have filt: "(\<lambda>d. d \<in> idOf ` set tasks) = map_has (buildTaskMap tasks)"
    by (intro ext) (simp add: map_has_buildTaskMap)
  have step: "\<And>t. fold (addDependency (buildTaskMap tasks) (idOf t)) (dependenciesOf (?f t))
      = fold (addDependency (buildTaskMap tasks) (idOf t)) (dependenciesOf t)"
    by (intro ext) (simp add: withoutDangling_deps filt addDependencies_filter)
  show ?thesis
    by (simp add: populateGraph_def addDependency_has [OF has] fold_map comp_def step)
qed

lemma plan_withoutDangling:
  "buildExecutionPlan fuel (map (withoutDangling tasks) tasks) =
     map_option (map_sum id (map (withoutDangling tasks))) (buildExecutionPlan fuel tasks)"
proof -
  let ?f = "withoutDangling tasks"
  have tm: "buildTaskMap (map ?f tasks) = map (\<lambda>(k, v). (k, ?f v)) (buildTaskMap tasks)"
    by (rule buildTaskMap_map) simp
  have keys: "map fst (map (\<lambda>(k, v). (k, ?f v)) (buildTaskMap tasks)) = map fst (buildTaskMap tasks)"
    by (simp add: comp_def case_prod_unfold)
  have g: "populateGraph (map (\<lambda>(k, v). (k, ?f v)) (buildTaskMap tasks)) (map ?f tasks)
             (initGraph (map ?f tasks)) =
           populateGraph (buildTaskMap tasks) tasks (initGraph tasks)"
    using populateGraph_withoutDangling [of tasks "initGraph tasks"]
    by (simp add: tm initGraph_map)
  have init: "initialState = mapOrder ?f initialState"
    by (simp add: initialState_def mapOrder_def)
  show ?thesis
    unfolding buildExecutionPlan_alt tm keys g
    by (subst init) (simp add: visitAll_map rev_map split: option.splits sum.splits)
qed

text \<open>More fuel never changes an answer.\<close>

lemma visit_fuel_mono:
  "visit n tm g t st = Some r \<Longrightarrow> n \<le> m \<Longrightarrow> visit m tm g t st = Some r"
  "visitEach n tm g ds st = Some r \<Longrightarrow> n \<le> m \<Longrightarrow> visitEach m tm g ds st = Some r"
proof (induction n tm g t st and n tm g ds st arbitrary: m r and m r
    rule: visit_visitEach.induct)
  case (1 tm g tid st)
  then show ?case by simp
next
  case (2 n tm g tid st)
  from "2.prems"(2) obtain m' where m: "m = Suc m'" and le: "n \<le> m'"
    by (cases m) auto
  show ?case
  proof (cases "tid \<in> temp st \<or> tid \<in> visited st")
    case True
    with "2.prems"(1) m show ?thesis by auto
  next
    case False
    with "2.prems"(1) obtain r1 where
      e: "visitEach n tm g (graphGet g tid) (st\<lparr>temp := insert tid (temp st)\<rparr>) = Some r1"
      by (auto split: option.splits)
    from False have "tid \<notin> temp st" "tid \<notin> visited st" by auto
    from "2.IH" [OF this e le] e "2.prems"(1) False m show ?thesis by simp
  qed
next
  case (3 n tm g st)
  then show ?case by simp
next
  case (4 n tm g depId rest st)
  from "4.prems"(1) obtain r1 where v: "visit n tm g depId st = Some r1"
    by (auto split: option.splits)
  note v' = "4.IH"(1) [OF v "4.prems"(2)]
  show ?case
  proof (cases r1)
    case (Inl e)
    with v v' "4.prems"(1) show ?thesis by auto
  next
    case (Inr st1)
    with v "4.prems"(1) have "visitEach n tm g rest st1 = Some r" by simp
    from "4.IH"(2) [OF v Inr this "4.prems"(2)] v' Inr show ?thesis by simp
  qed
qed

lemma visitAll_fuel_mono:
  "visitAll n tm g ks st = Some r \<Longrightarrow> n \<le> m \<Longrightarrow> visitAll m tm g ks st = Some r"
proof (induction ks arbitrary: st)
  case Nil
  then show ?case by simp
next
  case (Cons k ks)
  show ?case
  proof (cases "k \<in> visited st")
    case True
    with Cons show ?thesis by simp
  next
    case False
    with Cons.prems(1) obtain r1 where v: "visit n tm g k st = Some r1"
      by (auto split: option.splits)
    note v' = visit_fuel_mono(1) [OF v Cons.prems(2)]
    show ?thesis
    proof (cases r1)
      case (Inl e)
      with v v' False Cons.prems(1) show ?thesis by auto
    next
      case (Inr st1)
      with v False Cons.prems(1) have "visitAll n tm g ks st1 = Some r" by simp
      from Cons.IH [OF this Cons.prems(2)] v' Inr False show ?thesis by simp
    qed
  qed
qed

lemma plan_fuel_mono:
  "buildExecutionPlan n tasks = Some r \<Longrightarrow> n \<le> m \<Longrightarrow> buildExecutionPlan m tasks = Some r"
  unfolding buildExecutionPlan_alt
  by (auto split: option.splits sum.splits dest: visitAll_fuel_mono)

lemma dependentsFirst_split:
  "dependentsFirst g (xs @ x # ys) \<Longrightarrow> set (graphGet g x) \<subseteq> set ys"
  by (induction xs) auto

lemma buildExecutionPlan_dependents_first:
  assumes ok: "buildExecutionPlan fuel tasks = Some (Inr (pre @ t # post))"
    and dep: "d \<in> set (dependenciesOf t)" and inplan: "d \<in> (taskId \<circ> metadata) ` set tasks"
  shows "d \<in> (taskId \<circ> metadata) ` set post"
proof -
  let ?g = "populateGraph (buildTaskMap tasks) tasks (initGraph tasks)"
  from plan_success(3) [OF ok] have "set (graphGet ?g (idOf t)) \<subseteq> set (map idOf post)"
    using dependentsFirst_split [of ?g "map idOf pre" "idOf t" "map idOf post"] by simp
  moreover from plan_success(4) [OF ok] have "t \<in> set tasks"
    by (auto dest: buildTaskMap_entry)
  with dep inplan have "(idOf t, d) \<in> inPlanDependencies tasks"
    by (auto simp: inPlanDependencies_def)
  then have "d \<in> set (graphGet ?g (idOf t))"
    unfolding graphRel_plan [symmetric] by (simp add: graphRel_def)
  ultimately show ?thesis by auto
qed

text \<open>
  C1 does not hold of the code. The traversal pushes a task after its dependencies, so
  \<open>executionOrder\<close> already lists dependencies first; the final \<open>reverse()\<close> turns it
  round. For the two tasks of the specification's own example (\<open>task-2\<close> depends on
  \<open>task-1\<close>) the plan returned is \<open>[task-2, task-1]\<close>: the dependent task comes first.
\<close>

theorem buildExecutionPlan_order_failing_input:
  "buildExecutionPlan 3 exampleChain =
     Some (Inr [mkTask ''task-2'' [''task-1''], mkTask ''task-1'' []]) \<and>
   dependenciesOf (mkTask ''task-2'' [''task-1'']) = [''task-1''] \<and>
   taskId (metadata (mkTask ''task-1'' [])) = ''task-1''"
  by (simp add: exampleChain_def buildExecutionPlan_def buildTaskMap_def populateGraph_def
      initGraph_def mkTask_def addDependency_def dependenciesOf_def map_has_def set_add_def
      graphGet_def finishVisit_def Let_def eval_nat_numeral)

text \<open>
  C4. If the in-plan dependency relation has a cycle, then with enough fuel (more than
  the number of tasks) \<open>buildExecutionPlan\<close> ends in the error \<open>DependencyCycle x\<close> for a
  task id \<open>x\<close> that lies on a cycle; the result is the error alone, no list.
\<close>

theorem buildExecutionPlan_cycle_fails:
  assumes cyc: "(c, c) \<in> (inPlanDependencies tasks)\<^sup>+"
    and fuel: "length tasks < fuel"
  shows "\<exists>x. buildExecutionPlan fuel tasks = Some (Inl (DependencyCycle x)) \<and>
             (x, x) \<in> (inPlanDependencies tasks)\<^sup>+"
proof -
  from plan_total [OF fuel] obtain r where r: "buildExecutionPlan fuel tasks = Some r" by auto
  show ?thesis
  proof (cases r)
    case (Inl e)
    with r plan_error [of fuel tasks e] show ?thesis by auto
  next
    case (Inr plan)
    with r plan_success_acyclic [of fuel tasks plan c] cyc show ?thesis by simp
  qed
qed

theorem buildExecutionPlan_cycle_fails_witness:
  "(''task-1'', ''task-1'') \<in> (inPlanDependencies exampleCycle)\<^sup>+ \<and>
   length exampleCycle < 3 \<and>
   buildExecutionPlan 3 exampleCycle = Some (Inl (DependencyCycle ''task-1''))"
proof -
  have a: "(''task-1'', ''task-2'') \<in> inPlanDependencies exampleCycle"
    by (simp add: inPlanDependencies_def exampleCycle_def mkTask_def dependenciesOf_def)
  have b: "(''task-2'', ''task-1'') \<in> inPlanDependencies exampleCycle"
    by (simp add: inPlanDependencies_def exampleCycle_def mkTask_def dependenciesOf_def)
  from a b have h1: "(''task-1'', ''task-1'') \<in> (inPlanDependencies exampleCycle)\<^sup>+"
    by (rule trancl_into_trancl [OF r_into_trancl])
  have h2: "length exampleCycle < 3" by (simp add: exampleCycle_def)
  have v: "buildExecutionPlan 3 exampleCycle = Some (Inl (DependencyCycle ''task-1''))"
    by (simp add: exampleCycle_def buildExecutionPlan_def buildTaskMap_def populateGraph_def
      initGraph_def mkTask_def addDependency_def dependenciesOf_def map_has_def set_add_def
      graphGet_def finishVisit_def Let_def eval_nat_numeral)
  from buildExecutionPlan_cycle_fails [OF h1 h2] h1 h2 v show ?thesis by simp
qed

text \<open>
  C5. For tasks with pairwise different ids and enough fuel: (1) removing every
  dangling reference from the input changes neither failure nor order: the call on
  the cleaned tasks fails with the same error, or returns the same plan with the tasks
  cleaned; (2) a plan returned holds exactly the input tasks, each once, hence no entry
  for an absent id; (3) if the in-plan relation has no cycle, a plan is returned,
  whatever dangling references there are.
\<close>

theorem buildExecutionPlan_dangling_ignored:
  assumes dist: "distinct (map (taskId \<circ> metadata) tasks)"
    and fuel: "length tasks < fuel"
  shows "buildExecutionPlan fuel (map (withoutDangling tasks) tasks) =
           map_option (map_sum id (map (withoutDangling tasks))) (buildExecutionPlan fuel tasks) \<and>
         (\<forall>plan. buildExecutionPlan fuel tasks = Some (Inr plan) \<longrightarrow> mset plan = mset tasks) \<and>
         ((\<forall>x. (x, x) \<notin> (inPlanDependencies tasks)\<^sup>+) \<longrightarrow>
            (\<exists>plan. buildExecutionPlan fuel tasks = Some (Inr plan)))"
proof (intro conjI allI impI)
  show "buildExecutionPlan fuel (map (withoutDangling tasks) tasks) =
           map_option (map_sum id (map (withoutDangling tasks))) (buildExecutionPlan fuel tasks)"
    by (rule plan_withoutDangling)
next
  fix plan assume "buildExecutionPlan fuel tasks = Some (Inr plan)"
  from plan_permutation [OF this] dist show "mset plan = mset tasks" by (simp add: comp_def)
next
  assume acyc: "\<forall>x. (x, x) \<notin> (inPlanDependencies tasks)\<^sup>+"
  from plan_total [OF fuel] obtain r where r: "buildExecutionPlan fuel tasks = Some r" by auto
  show "\<exists>plan. buildExecutionPlan fuel tasks = Some (Inr plan)"
  proof (cases r)
    case (Inl e)
    with r plan_error [of fuel tasks e] acyc show ?thesis by auto
  next
    case (Inr plan)
    with r show ?thesis by simp
  qed
qed

theorem buildExecutionPlan_dangling_ignored_witness:
  "distinct (map (taskId \<circ> metadata) exampleDangling) \<and> length exampleDangling < 3 \<and>
   (\<forall>x. (x, x) \<notin> (inPlanDependencies exampleDangling)\<^sup>+) \<and>
   buildExecutionPlan 3 exampleDangling =
     Some (Inr [mkTask ''task-2'' [''task-1'', ''zz''], mkTask ''task-1'' [''task-9'']]) \<and>
   buildExecutionPlan 3 (map (withoutDangling exampleDangling) exampleDangling) =
     Some (Inr [mkTask ''task-2'' [''task-1''], mkTask ''task-1'' []]) \<and>
   mset [mkTask ''task-2'' [''task-1'', ''zz''], mkTask ''task-1'' [''task-9'']] =
     mset exampleDangling"
proof -
  have h1: "distinct (map (taskId \<circ> metadata) exampleDangling)"
    by (simp add: exampleDangling_def mkTask_def)
  have h2: "length exampleDangling < 3" by (simp add: exampleDangling_def)
  have v: "buildExecutionPlan 3 exampleDangling =
     Some (Inr [mkTask ''task-2'' [''task-1'', ''zz''], mkTask ''task-1'' [''task-9'']])"
    by (simp add: exampleDangling_def buildExecutionPlan_def buildTaskMap_def populateGraph_def
      initGraph_def mkTask_def addDependency_def dependenciesOf_def map_has_def set_add_def
      graphGet_def finishVisit_def Let_def eval_nat_numeral)
  have w: "map (withoutDangling exampleDangling)
             [mkTask ''task-2'' [''task-1'', ''zz''], mkTask ''task-1'' [''task-9'']] =
           [mkTask ''task-2'' [''task-1''], mkTask ''task-1'' []]"
    by (simp add: exampleDangling_def withoutDangling_def mkTask_def)
  have rel: "inPlanDependencies exampleDangling = {(''task-2'', ''task-1'')}"
    by (auto simp: inPlanDependencies_def exampleDangling_def mkTask_def dependenciesOf_def)
  have h3: "\<forall>x. (x, x) \<notin> (inPlanDependencies exampleDangling)\<^sup>+"
  proof (intro allI notI)
    fix x assume a: "(x, x) \<in> (inPlanDependencies exampleDangling)\<^sup>+"
    from a have "x \<in> Domain ((inPlanDependencies exampleDangling)\<^sup>+)" by (rule DomainI)
    moreover from a have "x \<in> Range ((inPlanDependencies exampleDangling)\<^sup>+)"
      by (rule RangeI)
    ultimately show False by (simp add: rel)
  qed
  from buildExecutionPlan_dangling_ignored [OF h1 h2] h1 h2 h3 v w show ?thesis by simp
qed

section \<open>Properties of the knowledge graph query\<close>

lemma slice0_length: "0 \<le> e \<Longrightarrow> int (length (slice0 xs e)) \<le> e"
  by (simp add: slice0_def Let_def)

lemma addNodeToContext_inv: "buildInv st \<Longrightarrow> buildInv (addNodeToContext g sn st)"
  by (auto simp: buildInv_def addNodeToContext_def Let_def getEdgesFrom_def)

lemma addNodeToContext_entities:
  "bsEntities (addNodeToContext g sn st) = bsEntities st @ [node sn]"
  by (simp add: addNodeToContext_def Let_def)

lemma fold_addNode_inv: "buildInv st \<Longrightarrow> buildInv (fold (addNodeToContext g) ns st)"
  by (induction ns arbitrary: st) (simp_all add: addNodeToContext_inv)

lemma fold_addNode_entities:
  "bsEntities (fold (addNodeToContext g) ns st) = bsEntities st @ map node ns"
  by (induction ns arbitrary: st) (simp_all add: addNodeToContext_entities)

lemma buildContextFromNodes_entities:
  "entities (buildContextFromNodes g ns) = map node ns"
  by (simp add: buildContextFromNodes_def Let_def fold_addNode_entities)

lemma buildInv_initial:
  "buildInv \<lparr>includedNodeIds = {}, bsEntities = [], bsRelationships = []\<rparr>"
  by (simp add: buildInv_def)

lemma buildContextFromNodes_endpoints:
  assumes "r \<in> set (relationships (buildContextFromNodes g ns))"
  shows "edgeFrom r \<in> nodeId ` set (entities (buildContextFromNodes g ns)) \<and>
         edgeTo r \<in> nodeId ` set (entities (buildContextFromNodes g ns))"
proof -
  let ?st = "fold (addNodeToContext g) ns
               \<lparr>includedNodeIds = {}, bsEntities = [], bsRelationships = []\<rparr>"
  have inv: "buildInv ?st" by (rule fold_addNode_inv [OF buildInv_initial])
  from assms have r: "r \<in> set (bsRelationships ?st)"
    by (simp add: buildContextFromNodes_def Let_def)
  have e: "entities (buildContextFromNodes g ns) = bsEntities ?st"
    by (simp add: buildContextFromNodes_def Let_def)
  from inv r show ?thesis unfolding e buildInv_def by blast
qed

text \<open>
  Which edges the context holds: for each selected node in turn, the edges leaving it
  for a node selected at the same or an earlier position.
\<close>

lemma addNodeToContext_relationships:
  "bsRelationships (addNodeToContext g sn st) =
     bsRelationships st @
     filter (\<lambda>e. edgeTo e \<in> insert (nodeId (node sn)) (includedNodeIds st))
       (getEdgesFrom g (nodeId (node sn)))"
  "includedNodeIds (addNodeToContext g sn st) = insert (nodeId (node sn)) (includedNodeIds st)"
  by (simp_all add: addNodeToContext_def Let_def)

lemma fold_addNode_relationships:
  "bsRelationships (fold (addNodeToContext g) ns st) =
     bsRelationships st @
     concat (map (\<lambda>k. filter (\<lambda>e. edgeTo e \<in> includedNodeIds st \<union>
                                          nodeId ` node ` set (take (Suc k) ns))
                          (getEdgesFrom g (nodeId (node (ns ! k)))))
               [0..<length ns])"
proof (induction ns arbitrary: st)
  case Nil
  then show ?case by simp
next
  case (Cons n ns)
  have upt: "[0..<length (n # ns)] = 0 # map Suc [0..<length ns]"
    by (simp add: upt_conv_Cons map_Suc_upt del: upt_Suc)
  show ?case
    unfolding upt
    by (simp add: Cons.IH addNodeToContext_relationships comp_def disj_commute disj_left_commute del: upt_Suc)
qed

lemma buildContextFromNodes_relationships:
  "relationships (buildContextFromNodes g ns) =
     concat (map (\<lambda>k. filter (\<lambda>e. edgeTo e \<in> nodeId ` node ` set (take (Suc k) ns))
                          (getEdgesFrom g (nodeId (node (ns ! k)))))
               [0..<length ns])"
  by (simp add: buildContextFromNodes_def Let_def fold_addNode_relationships)

text \<open>
  C2 does not hold of the code. With \<open>maxNodes = 2\<close> the query selects \<open>file:a.ts\<close> and
  \<open>file:b.ts\<close>, in this order. The graph has the edge from \<open>file:a.ts\<close> to \<open>file:b.ts\<close>,
  both ends selected, yet the context holds only the edge back: when \<open>file:a.ts\<close> is
  processed, \<open>file:b.ts\<close> is not in \<open>includedNodeIds\<close> yet.
\<close>

theorem getRelevantContext_omits_forward_edge:
  "map_sum id entityIds (getRelevantContext id exampleGraph exampleQuery 2)
     = Inr [''file:a.ts'', ''file:b.ts''] \<and>
   getEdgesFrom exampleGraph ''file:a.ts''
     = [\<lparr>edgeFrom = ''file:a.ts'', edgeTo = ''file:b.ts'', edgeType = ''imports'',
          edgeData = None\<rparr>] \<and>
   map_sum id relationships (getRelevantContext id exampleGraph exampleQuery 2)
     = Inr [\<lparr>edgeFrom = ''file:b.ts'', edgeTo = ''file:a.ts'', edgeType = ''imports'',
              edgeData = None\<rparr>]"
  by code_simp

text \<open>
  C6, as stated, fails for a negative \<open>maxNodes\<close>: \<open>slice(0, -1)\<close> drops the last of the
  three relevant nodes and keeps two, which is more than -1.
\<close>

theorem getRelevantContext_negative_maxNodes_counterexample:
  "map_sum id entityIds (getRelevantContext id exampleGraph exampleQuery (- 1))
     = Inr [''file:a.ts'', ''file:b.ts''] \<and>
   \<not> int (length [''file:a.ts'', ''file:b.ts'']) \<le> - 1"
  by code_simp

text \<open>
  C6, amended. For every call with \<open>maxNodes \<ge> 0\<close> that returns a context, the context
  has at most \<open>maxNodes\<close> entities, and both ends of every relationship in it are ids of
  its entities.
\<close>

theorem getRelevantContext_bounded:
  assumes nonneg: "0 \<le> maxNodes"
    and res: "getRelevantContext stringify g taskMessage maxNodes = Inr ctx"
  shows "int (length (entities ctx)) \<le> maxNodes \<and>
         (\<forall>r \<in> set (relationships ctx).
            edgeFrom r \<in> nodeId ` set (entities ctx) \<and> edgeTo r \<in> nodeId ` set (entities ctx))"
proof -
  from res obtain c where c: "msgContent taskMessage = Some c"
    by (auto simp: getRelevantContext_def split: option.splits)
  let ?top = "slice0 (sortByRelevance (findRelevantNodes stringify g
                 (extractKeywords (toLowerCase c)) (msgTaskType taskMessage))) maxNodes"
  from res c have ctx: "ctx = buildContextFromNodes g ?top"
    by (simp add: getRelevantContext_def Let_def)
  have "int (length (entities ctx)) \<le> maxNodes"
    using slice0_length [OF nonneg] by (simp add: ctx buildContextFromNodes_entities)
  moreover have "\<forall>r \<in> set (relationships ctx).
            edgeFrom r \<in> nodeId ` set (entities ctx) \<and> edgeTo r \<in> nodeId ` set (entities ctx)"
    unfolding ctx using buildContextFromNodes_endpoints by blast
  ultimately show ?thesis by simp
qed

theorem getRelevantContext_bounded_witness:
  "(0::int) \<le> 2 \<and>
   getRelevantContext id exampleGraph exampleQuery 2 =
     Inr \<lparr>entities = [\<lparr>nodeId = ''file:a.ts'', nodeType = ''file'',
                         nodeData = ''{path:a.ts,role:parser module}''\<rparr>,
                       \<lparr>nodeId = ''file:b.ts'', nodeType = ''file'',
                         nodeData = ''{path:b.ts,role:parser module}''\<rparr>],
           relationships = [\<lparr>edgeFrom = ''file:b.ts'', edgeTo = ''file:a.ts'',
                              edgeType = ''imports'', edgeData = None\<rparr>],
           summary = \<lparr>entityCount = 2, relationshipCount = 1, entityTypes = [(''file'', 2)],
                      relationshipTypes = [(''imports'', 1)]\<rparr>\<rparr> \<and>
   int (length [\<lparr>nodeId = ''file:a.ts'', nodeType = ''file'',
                  nodeData = ''{path:a.ts,role:parser module}''\<rparr>,
                \<lparr>nodeId = ''file:b.ts'', nodeType = ''file'',
                  nodeData = ''{path:b.ts,role:parser module}''\<rparr>]) \<le> 2"
proof -
  have h1: "(0::int) \<le> 2" by simp
  have h2: "getRelevantContext id exampleGraph exampleQuery 2 =
     Inr \<lparr>entities = [\<lparr>nodeId = ''file:a.ts'', nodeType = ''file'',
                         nodeData = ''{path:a.ts,role:parser module}''\<rparr>,
                       \<lparr>nodeId = ''file:b.ts'', nodeType = ''file'',
                         nodeData = ''{path:b.ts,role:parser module}''\<rparr>],
           relationships = [\<lparr>edgeFrom = ''file:b.ts'', edgeTo = ''file:a.ts'',
                              edgeType = ''imports'', edgeData = None\<rparr>],
           summary = \<lparr>entityCount = 2, relationshipCount = 1, entityTypes = [(''file'', 2)],
                      relationshipTypes = [(''imports'', 1)]\<rparr>\<rparr>"
    by code_simp
  from getRelevantContext_bounded [OF h1 h2] h1 h2 show ?thesis by simp
qed

text \<open>
  C9 does not hold of the code. A task message without \<open>content\<close> makes
  \<open>taskMessage.content.toLowerCase()\<close> throw a \<open>TypeError\<close>, whatever the graph, the task
  type and \<open>maxNodes\<close>; no context is returned.
\<close>

theorem getRelevantContext_missing_content_throws:
  "getRelevantContext stringify g \<lparr>msgContent = None, msgTaskType = t\<rparr> maxNodes = Inl TypeError"
  by (simp add: getRelevantContext_def)

text \<open>
  An empty text, in contrast, has no keyword, and without a task type no node is
  relevant: the context returned is empty.
\<close>

lemma findRelevantNodes_no_keywords: "findRelevantNodes stringify g [] None = []"
  by (simp add: findRelevantNodes_def scoreNode_def jsDivide_def taskTypeBonus_def Let_def)

lemma getRelevantContext_empty_content:
  "getRelevantContext stringify g \<lparr>msgContent = Some [], msgTaskType = None\<rparr> 20 =
     Inr \<lparr>entities = [], relationships = [],
          summary = \<lparr>entityCount = 0, relationshipCount = 0, entityTypes = [],
                     relationshipTypes = []\<rparr>\<rparr>"
  by (simp add: getRelevantContext_def toLowerCase_def extractKeywords_def splitWhitespace_def
      findRelevantNodes_no_keywords Let_def sortByRelevance_def
      slice0_def buildContextFromNodes_def countByType_def)

section \<open>Properties of the context compressor\<close>

lemma componentTokens_nonneg: "0 \<le> componentTokens E s c"
  by (simp add: componentTokens_def)

lemma packedCost_nonneg: "0 \<le> packedCost E s cs"
  unfolding packedCost_def by (rule sum_list_nonneg) (auto simp: componentTokens_nonneg)

lemma packedCost_Cons: "packedCost E s (c # cs) = componentTokens E s c + packedCost E s cs"
  by (simp add: packedCost_def)

lemma fitLoop_greedyPack:
  "fitLoop E budget cs result used s =
     (case greedyPack E cs (budget - used) s of
        Inl e \<Rightarrow> Inl e
      | Inr (r, s') \<Rightarrow> Inr (result @ r, s'))"
proof (induction cs arbitrary: result used s)
  case Nil
  then show ?case by simp
next
  case (Cons c cs)
  have eq: "budget - (used + componentTokens E s c) = budget - used - componentTokens E s c"
    by simp
  show ?case
    by (simp add: Let_def Cons.IH eq componentTokens_def [symmetric]
        split: sum.splits prod.splits option.splits)
qed

text \<open>A run of components whose total cost fits is taken verbatim, one after another.\<close>

lemma fitLoop_prefix:
  "used + packedCost E s pre \<le> budget \<Longrightarrow>
   fitLoop E budget (pre @ rest) result used s =
   fitLoop E budget rest (result @ map Verbatim pre) (used + packedCost E s pre) s"
proof (induction pre arbitrary: result used)
  case Nil
  then show ?case by (simp add: packedCost_def)
next
  case (Cons c pre)
  have nn: "0 \<le> packedCost E s pre" by (rule packedCost_nonneg)
  from Cons.prems nn have fit: "used + componentTokens E s c \<le> budget"
    by (simp add: packedCost_Cons)
  from Cons.prems have "(used + componentTokens E s c) + packedCost E s pre \<le> budget"
    by (simp add: packedCost_Cons)
  from Cons.IH [OF this] fit show ?case
    by (simp add: componentTokens_def packedCost_Cons add.assoc)
qed

lemma compressComponent_declines_store:
  "compressComponent E s c b = Inr (None, s') \<Longrightarrow> s' = s"
  by (auto simp: compressComponent_def compressDependenciesComponent_def Let_def
      split: if_splits option.splits)

lemma compressComponent_not_Verbatim:
  "compressComponent E s c b = Inr (Some cc, s') \<Longrightarrow> cc \<noteq> Verbatim c'"
  by (auto simp: compressComponent_def compressDependenciesComponent_def Let_def
      compressCodeComponent_def compressDocumentationComponent_def
      split: if_splits option.splits)

lemma fitLoop_negative_budget:
  "budget < 0 \<Longrightarrow> 0 \<le> used \<Longrightarrow> fitLoop E budget cs result used s = Inr (r, s') \<Longrightarrow>
   r = result \<or> (\<exists>cc. r = result @ [cc] \<and> (\<forall>c. cc \<noteq> Verbatim c))"
proof (induction cs arbitrary: s)
  case Nil
  then show ?case by simp
next
  case (Cons c cs)
  from Cons.prems(1,2) have nofit:
    "\<not> used + int (tokenCounter_count E (Some (JSON_stringify E s c))) \<le> budget" by simp
  show ?case
  proof (cases "compressComponent E s c (budget - used)")
    case (Inl e)
    with Cons.prems nofit show ?thesis by (simp add: Let_def)
  next
    case (Inr p)
    obtain o' s1 where p: "p = (o', s1)" by (cases p)
    show ?thesis
    proof (cases o')
      case None
      with Cons.prems nofit Inr p have "fitLoop E budget cs result used s1 = Inr (r, s')"
        by (simp add: Let_def)
      from Cons.IH [OF Cons.prems(1,2) this] show ?thesis .
    next
      case (Some cc)
      with Cons.prems nofit Inr p have "r = result @ [cc]" by (simp add: Let_def)
      moreover from Inr p Some have "\<forall>c'. cc \<noteq> Verbatim c'"
        using compressComponent_not_Verbatim by blast
      ultimately show ?thesis by blast
    qed
  qed
qed

lemma sortByImportance_mset: "mset (sortByImportance ds) = mset ds"
  by (simp add: sortByImportance_def)

lemma sortByImportance_sorted:
  "sorted_wrt (\<lambda>x y. importanceScore y \<le> importanceScore x) (sortByImportance ds)"
proof -
  have "sorted (map (\<lambda>d. - importanceScore d) (sortByImportance ds))"
    by (simp add: sortByImportance_def)
  then show ?thesis by (simp add: sorted_map)
qed

text \<open>
  C7. Greedy packing. (1) The loop computes the specification's packing. (2) A run of
  components whose cost fits the budget is included verbatim, and the loop goes on
  behind it with that cost used. (3) At the first component that does not fit, a
  compression that returns a result ends the packing: the result is the verbatim run
  and the compressed component, whatever follows. (4) If the compression declines,
  the result is that of the same sequence without this component.
\<close>

theorem fitComponentsInBudget_greedy_packing:
  "fitComponentsInBudget E s cs budget = greedyPack E cs budget s \<and>
   (packedCost E s pre \<le> budget \<longrightarrow>
      fitComponentsInBudget E s (pre @ rest) budget =
      fitLoop E budget rest (map Verbatim pre) (packedCost E s pre) s) \<and>
   (packedCost E s pre \<le> budget \<and> budget < packedCost E s pre + componentTokens E s c \<and>
    compressComponent E s c (budget - packedCost E s pre) = Inr (Some cc, s') \<longrightarrow>
      fitComponentsInBudget E s (pre @ c # post) budget = Inr (map Verbatim pre @ [cc], s')) \<and>
   (packedCost E s pre \<le> budget \<and> budget < packedCost E s pre + componentTokens E s c \<and>
    compressComponent E s c (budget - packedCost E s pre) = Inr (None, s') \<longrightarrow>
      fitComponentsInBudget E s (pre @ c # post) budget =
      fitComponentsInBudget E s (pre @ post) budget)"
proof (intro conjI impI)
  show "fitComponentsInBudget E s cs budget = greedyPack E cs budget s"
    by (simp add: fitComponentsInBudget_def fitLoop_greedyPack split: sum.splits)
next
  assume "packedCost E s pre \<le> budget"
  then show "fitComponentsInBudget E s (pre @ rest) budget =
     fitLoop E budget rest (map Verbatim pre) (packedCost E s pre) s"
    using fitLoop_prefix [of 0 E s pre budget rest "[]"]
    by (simp add: fitComponentsInBudget_def)
next
  assume a: "packedCost E s pre \<le> budget \<and> budget < packedCost E s pre + componentTokens E s c \<and>
    compressComponent E s c (budget - packedCost E s pre) = Inr (Some cc, s')"
  then show "fitComponentsInBudget E s (pre @ c # post) budget = Inr (map Verbatim pre @ [cc], s')"
    using fitLoop_prefix [of 0 E s pre budget "c # post" "[]"]
    by (simp add: fitComponentsInBudget_def componentTokens_def)
next
  assume a: "packedCost E s pre \<le> budget \<and> budget < packedCost E s pre + componentTokens E s c \<and>
    compressComponent E s c (budget - packedCost E s pre) = Inr (None, s')"
  then have "s' = s" using compressComponent_declines_store by blast
  with a show "fitComponentsInBudget E s (pre @ c # post) budget =
     fitComponentsInBudget E s (pre @ post) budget"
    using fitLoop_prefix [of 0 E s pre budget "c # post" "[]"]
      fitLoop_prefix [of 0 E s pre budget "post" "[]"]
    by (simp add: fitComponentsInBudget_def componentTokens_def)
qed

theorem fitComponentsInBudget_greedy_packing_witness:
  "packedCost exampleCollaborators exampleStore [exampleNote] \<le> 6 \<and>
   6 < packedCost exampleCollaborators exampleStore [exampleNote]
         + componentTokens exampleCollaborators exampleStore exampleCode \<and>
   compressComponent exampleCollaborators exampleStore exampleCode
       (6 - packedCost exampleCollaborators exampleStore [exampleNote])
     = Inr (Some (Summarized ''code'' (Some ''a.ts'') ''...''), exampleStore) \<and>
   fitComponentsInBudget exampleCollaborators exampleStore
       ([exampleNote] @ exampleCode # [exampleDeps]) 6
     = Inr (map Verbatim [exampleNote] @ [Summarized ''code'' (Some ''a.ts'') ''...''],
            exampleStore) \<and>
   packedCost exampleCollaborators exampleStore [exampleCode] \<le> 6 \<and>
   6 < packedCost exampleCollaborators exampleStore [exampleCode]
         + componentTokens exampleCollaborators exampleStore exampleNote \<and>
   compressComponent exampleCollaborators exampleStore exampleNote
       (6 - packedCost exampleCollaborators exampleStore [exampleCode])
     = Inr (None, exampleStore) \<and>
   fitComponentsInBudget exampleCollaborators exampleStore
       ([exampleCode] @ exampleNote # [exampleDeps]) 6
     = fitComponentsInBudget exampleCollaborators exampleStore
       ([exampleCode] @ [exampleDeps]) 6"
proof -
  have p1: "packedCost exampleCollaborators exampleStore [exampleNote] \<le> 6"
    by (simp add: packedCost_def componentTokens_def
      compressComponent_def compressCodeComponent_def Let_def exampleCollaborators_def exampleNote_def
      exampleCode_def)
  have p2: "6 < packedCost exampleCollaborators exampleStore [exampleNote]
         + componentTokens exampleCollaborators exampleStore exampleCode"
    by (simp add: packedCost_def componentTokens_def
      compressComponent_def compressCodeComponent_def Let_def exampleCollaborators_def exampleNote_def
      exampleCode_def)
  have p3: "compressComponent exampleCollaborators exampleStore exampleCode
       (6 - packedCost exampleCollaborators exampleStore [exampleNote])
     = Inr (Some (Summarized ''code'' (Some ''a.ts'') ''...''), exampleStore)"
    by (simp add: packedCost_def componentTokens_def
      compressComponent_def compressCodeComponent_def Let_def exampleCollaborators_def exampleNote_def
      exampleCode_def)
  have q1: "packedCost exampleCollaborators exampleStore [exampleCode] \<le> 6"
    by (simp add: packedCost_def componentTokens_def
      compressComponent_def compressCodeComponent_def Let_def exampleCollaborators_def exampleNote_def
      exampleCode_def)
  have q2: "6 < packedCost exampleCollaborators exampleStore [exampleCode]
         + componentTokens exampleCollaborators exampleStore exampleNote"
    by (simp add: packedCost_def componentTokens_def
      compressComponent_def compressCodeComponent_def Let_def exampleCollaborators_def exampleNote_def
      exampleCode_def)
  have q3: "compressComponent exampleCollaborators exampleStore exampleNote
       (6 - packedCost exampleCollaborators exampleStore [exampleCode])
     = Inr (None, exampleStore)"
    by (simp add: packedCost_def componentTokens_def
      compressComponent_def compressCodeComponent_def Let_def exampleCollaborators_def exampleNote_def
      exampleCode_def)
  from fitComponentsInBudget_greedy_packing
         [of exampleCollaborators exampleStore "[]" 6 "[exampleNote]" "[]" exampleCode
             "Summarized ''code'' (Some ''a.ts'') ''...''" exampleStore "[exampleDeps]"]
       fitComponentsInBudget_greedy_packing
         [of exampleCollaborators exampleStore "[]" 6 "[exampleCode]" "[]" exampleNote
             "Summarized ''code'' (Some ''a.ts'') ''...''" exampleStore "[exampleDeps]"]
       p1 p2 p3 q1 q2 q3
  show ?thesis by blast
qed

text \<open>
  C8, as stated, fails. With a budget of 1 and metadata estimated at 2 tokens the
  remaining budget is -1, yet the first component, of type \<open>code\<close>, is summarised and
  included: any text counts more than a negative budget.
\<close>

theorem compress_negative_budget_counterexample:
  "1 < int (tokenCounter_count exampleCollaborators
             (Some (JSON_stringify_metadata exampleCollaborators
                (extractEssentialMetadata (exampleContext [exampleCode, exampleDeps]))))) \<and>
   compress exampleCollaborators exampleStore (exampleContext [exampleCode, exampleDeps]) 1
     = Inr (\<lparr>userId = Some ''u1'', projectType = None, requestType = None, timestamp = None,
             components = [Summarized ''code'' (Some ''a.ts'') ''...'']\<rparr>, exampleStore) \<and>
   components \<lparr>userId = Some ''u1'', projectType = None, requestType = None, timestamp = None,
             components = [Summarized ''code'' (Some ''a.ts'') ''...'']\<rparr> \<noteq> []"
  by (simp add: compress_def fitComponentsInBudget_def compressComponent_def
      compressCodeComponent_def extractEssentialMetadata_def essentialMetadata.extend_def
      compressedContext.fields_def Let_def exampleCollaborators_def exampleCode_def
      exampleContext_def)

text \<open>
  C8, amended. When the estimate of the essential metadata exceeds \<open>maxTokens\<close>, the
  returned object carries the essential metadata and no verbatim component; its
  component list has at most one entry, a compressed component.
\<close>

theorem compress_negative_budget_amended:
  assumes neg: "maxTokens <
     int (tokenCounter_count E (Some (JSON_stringify_metadata E (extractEssentialMetadata ctx))))"
    and res: "compress E s ctx maxTokens = Inr (out, s')"
  shows "essentialMetadata.truncate out = extractEssentialMetadata ctx \<and>
         length (components out) \<le> 1 \<and> (\<forall>c. Verbatim c \<notin> set (components out))"
proof -
  let ?rem = "maxTokens -
     int (tokenCounter_count E (Some (JSON_stringify_metadata E (extractEssentialMetadata ctx))))"
  from res obtain r where
    fit: "fitLoop E ?rem (prioritizer_prioritize E ctx) [] 0 s = Inr (r, s')"
    and out: "out = essentialMetadata.extend (extractEssentialMetadata ctx)
                      (compressedContext.fields r)"
    by (auto simp: compress_def Let_def fitComponentsInBudget_def split: sum.splits)
  from neg have "?rem < 0" by simp
  from fitLoop_negative_budget [OF this _ fit]
  have "r = [] \<or> (\<exists>cc. r = [cc] \<and> (\<forall>c. cc \<noteq> Verbatim c))" by simp
  moreover from out have "components out = r"
    by (simp add: essentialMetadata.extend_def compressedContext.fields_def)
  moreover from out have "essentialMetadata.truncate out = extractEssentialMetadata ctx"
    by (simp add: essentialMetadata.extend_def essentialMetadata.truncate_def
        compressedContext.fields_def extractEssentialMetadata_def)
  ultimately show ?thesis by auto
qed

theorem compress_negative_budget_amended_witness:
  "1 < int (tokenCounter_count exampleCollaborators
             (Some (JSON_stringify_metadata exampleCollaborators
                (extractEssentialMetadata (exampleContext [exampleCode, exampleDeps]))))) \<and>
   compress exampleCollaborators exampleStore (exampleContext [exampleCode, exampleDeps]) 1
     = Inr (\<lparr>userId = Some ''u1'', projectType = None, requestType = None, timestamp = None,
             components = [Summarized ''code'' (Some ''a.ts'') ''...'']\<rparr>, exampleStore) \<and>
   essentialMetadata.truncate
       \<lparr>userId = Some ''u1'', projectType = None, requestType = None, timestamp = None,
        components = [Summarized ''code'' (Some ''a.ts'') ''...'']\<rparr>
     = extractEssentialMetadata (exampleContext [exampleCode, exampleDeps]) \<and>
   length (components
       \<lparr>userId = Some ''u1'', projectType = None, requestType = None, timestamp = None,
        components = [Summarized ''code'' (Some ''a.ts'') ''...'']\<rparr>) \<le> 1"
proof -
  have h1: "1 < int (tokenCounter_count exampleCollaborators
             (Some (JSON_stringify_metadata exampleCollaborators
                (extractEssentialMetadata (exampleContext [exampleCode, exampleDeps])))))"
    by (simp add: compress_def fitComponentsInBudget_def compressComponent_def
      compressCodeComponent_def extractEssentialMetadata_def essentialMetadata.extend_def
      compressedContext.fields_def Let_def exampleCollaborators_def exampleCode_def
      exampleContext_def)
  have h2: "compress exampleCollaborators exampleStore (exampleContext [exampleCode, exampleDeps]) 1
     = Inr (\<lparr>userId = Some ''u1'', projectType = None, requestType = None, timestamp = None,
             components = [Summarized ''code'' (Some ''a.ts'') ''...'']\<rparr>, exampleStore)"
    by (simp add: compress_def fitComponentsInBudget_def compressComponent_def
      compressCodeComponent_def extractEssentialMetadata_def essentialMetadata.extend_def
      compressedContext.fields_def Let_def exampleCollaborators_def exampleCode_def
      exampleContext_def)
  from compress_negative_budget_amended [OF h1 h2] h1 h2 show ?thesis by blast
qed

lemma fitLoop_passes:
  "usedAfter E budget s pre used = Some used' \<Longrightarrow>
   \<exists>result'. fitLoop E budget (pre @ rest) result used s = fitLoop E budget rest result' used' s"
proof (induction pre arbitrary: result used)
  case Nil
  then show ?case by auto
next
  case (Cons c pre)
  show ?case
  proof (cases "used + componentTokens E s c \<le> budget")
    case True
    with Cons.prems have "usedAfter E budget s pre (used + componentTokens E s c) = Some used'"
      by simp
    from Cons.IH [OF this, of "result @ [Verbatim c]"] True show ?thesis
      by (simp add: componentTokens_def)
  next
    case False
    with Cons.prems obtain s1 where
      d: "compressComponent E s c (budget - used) = Inr (None, s1)"
      and u: "usedAfter E budget s pre used = Some used'"
      by (auto split: sum.splits option.splits prod.splits)
    from d have "s1 = s" by (rule compressComponent_declines_store)
    with Cons.IH [OF u, of result] False d show ?thesis
      by (simp add: componentTokens_def)
  qed
qed

text \<open>
  C10. \<open>compress\<close> writes to its input. When the loop reaches a \<open>dependencies\<close>
  component with a non-empty array (every component before it fitted, or was dropped)
  and the component does not fit, the call ends with the array at the component's
  address replaced by its stable sort by descending \<open>importanceScore\<close>: the same
  entries, reordered in place. The store is otherwise the one the call started with;
  nothing else of the input is written.
\<close>

theorem compress_sorts_dependencies_in_place:
  assumes prio: "prioritizer_prioritize E ctx = pre @ c # post"
    and rem: "remaining = maxTokens -
      int (tokenCounter_count E (Some (JSON_stringify_metadata E (extractEssentialMetadata ctx))))"
    and reach: "usedAfter E remaining s pre 0 = Some used"
    and over: "remaining < used + componentTokens E s c"
    and dep: "ctype c = ''dependencies''" "dependencies_ref c = Some a" "s a \<noteq> []"
  shows "(\<exists>out. compress E s ctx maxTokens = Inr (out, s(a := sortByImportance (s a)))) \<and>
         mset (sortByImportance (s a)) = mset (s a) \<and>
         sorted_wrt (\<lambda>x y. importanceScore y \<le> importanceScore x) (sortByImportance (s a))"
proof -
  let ?b = "remaining - used"
  let ?cc = "TopDependencies (take (nat (max 1 (?b div 50))) (sortByImportance (s a)))
               (length (sortByImportance (s a)))"
  have cc: "compressComponent E s c ?b = Inr (Some ?cc, s(a := sortByImportance (s a)))"
    using dep by (simp add: compressComponent_def compressDependenciesComponent_def Let_def)
  from fitLoop_passes [OF reach, of "c # post" "[]"] obtain result' where
    "fitLoop E remaining (pre @ c # post) [] 0 s = fitLoop E remaining (c # post) result' used s"
    by blast
  with over cc have "fitComponentsInBudget E s (pre @ c # post) remaining =
     Inr (result' @ [?cc], s(a := sortByImportance (s a)))"
    by (simp add: fitComponentsInBudget_def componentTokens_def)
  then have "\<exists>out. compress E s ctx maxTokens = Inr (out, s(a := sortByImportance (s a)))"
    using prio rem by (simp add: compress_def Let_def)
  then show ?thesis
    by (simp add: sortByImportance_mset sortByImportance_sorted)
qed

theorem compress_sorts_dependencies_in_place_witness:
  "compress exampleCollaborators exampleStore
       (exampleContext [exampleCode, exampleNote, exampleDeps]) 8
     = Inr (\<lparr>userId = Some ''u1'', projectType = None, requestType = None, timestamp = None,
             components = [Verbatim exampleCode,
                           TopDependencies [\<lparr>depName = ''react'', importanceScore = 9\<rparr>] 2]\<rparr>,
            exampleStore (0 := sortByImportance (exampleStore 0))) \<and>
   exampleStore 0 = [\<lparr>depName = ''left-pad'', importanceScore = 1\<rparr>,
                     \<lparr>depName = ''react'', importanceScore = 9\<rparr>] \<and>
   sortByImportance (exampleStore 0) = [\<lparr>depName = ''react'', importanceScore = 9\<rparr>,
                                        \<lparr>depName = ''left-pad'', importanceScore = 1\<rparr>]"
proof -
  have prio: "prioritizer_prioritize exampleCollaborators
                (exampleContext [exampleCode, exampleNote, exampleDeps])
     = [exampleCode, exampleNote] @ exampleDeps # []"
    by (simp add: exampleCollaborators_def exampleStore_def
      exampleCode_def exampleNote_def exampleDeps_def exampleContext_def)
  have rem: "(6::int) = 8 - int (tokenCounter_count exampleCollaborators
       (Some (JSON_stringify_metadata exampleCollaborators
          (extractEssentialMetadata (exampleContext [exampleCode, exampleNote, exampleDeps])))))"
    by (simp add: exampleCollaborators_def exampleStore_def
      exampleCode_def exampleNote_def exampleDeps_def exampleContext_def)
  have reach: "usedAfter exampleCollaborators 6 exampleStore [exampleCode, exampleNote] 0 = Some 4"
    by (simp add: compress_def fitComponentsInBudget_def compressComponent_def
      compressCodeComponent_def compressDependenciesComponent_def sortByImportance_def
      extractEssentialMetadata_def essentialMetadata.extend_def compressedContext.fields_def
      componentTokens_def Let_def exampleCollaborators_def exampleStore_def
      exampleCode_def exampleNote_def exampleDeps_def exampleContext_def)
  have over: "6 < 4 + componentTokens exampleCollaborators exampleStore exampleDeps"
    by (simp add: compress_def fitComponentsInBudget_def compressComponent_def
      compressCodeComponent_def compressDependenciesComponent_def sortByImportance_def
      extractEssentialMetadata_def essentialMetadata.extend_def compressedContext.fields_def
      componentTokens_def Let_def exampleCollaborators_def exampleStore_def
      exampleCode_def exampleNote_def exampleDeps_def exampleContext_def)
  have dep: "ctype exampleDeps = ''dependencies''" "dependencies_ref exampleDeps = Some 0"
    "exampleStore 0 \<noteq> []"
    by (simp_all add: exampleCollaborators_def exampleStore_def
      exampleCode_def exampleNote_def exampleDeps_def exampleContext_def)
  have val: "compress exampleCollaborators exampleStore
       (exampleContext [exampleCode, exampleNote, exampleDeps]) 8
     = Inr (\<lparr>userId = Some ''u1'', projectType = None, requestType = None, timestamp = None,
             components = [Verbatim exampleCode,
                           TopDependencies [\<lparr>depName = ''react'', importanceScore = 9\<rparr>] 2]\<rparr>,
            exampleStore (0 := sortByImportance (exampleStore 0)))"
    by (simp add: compress_def fitComponentsInBudget_def compressComponent_def
      compressCodeComponent_def compressDependenciesComponent_def sortByImportance_def
      extractEssentialMetadata_def essentialMetadata.extend_def compressedContext.fields_def
      componentTokens_def Let_def exampleCollaborators_def exampleStore_def
      exampleCode_def exampleNote_def exampleDeps_def exampleContext_def)
  have "sortByImportance (exampleStore 0) = [\<lparr>depName = ''react'', importanceScore = 9\<rparr>,
                                        \<lparr>depName = ''left-pad'', importanceScore = 1\<rparr>]"
    by (simp add: compress_def fitComponentsInBudget_def compressComponent_def
      compressCodeComponent_def compressDependenciesComponent_def sortByImportance_def
      extractEssentialMetadata_def essentialMetadata.extend_def compressedContext.fields_def
      componentTokens_def Let_def exampleCollaborators_def exampleStore_def
      exampleCode_def exampleNote_def exampleDeps_def exampleContext_def)
  with compress_sorts_dependencies_in_place [OF prio rem reach over dep] val
  show ?thesis by (simp add: exampleStore_def)
qed

end
